theory Spec2Isabelle
  imports Complex_Main
begin

section \<open>Reconstruction of binary forms from their invariants\<close>

text \<open>
  A shallow embedding of \<^verbatim>\<open>sage/rings/invariants/reconstruction.py\<close>.
  Every \<^verbatim>\<open>raise\<close> of the source, and every exception of the interpreter or of the
  library that the source can run into, is a value of \<open>error\<close>; a function that may
  raise returns \<open>error + 'a\<close>, with \<open>Inl\<close> for the exception.
\<close>

subsection \<open>Exceptions\<close>

datatype error =
    ValueError string
  | NotImplementedError string
  | ZeroDivisionError
  | ArithmeticError
  | IndexError
  | TypeError

definition and_then :: "error + 'a \<Rightarrow> ('a \<Rightarrow> error + 'b) \<Rightarrow> error + 'b" where
  "and_then m f = (case m of Inl e \<Rightarrow> Inl e | Inr v \<Rightarrow> f v)"

fun map_raising :: "('a \<Rightarrow> error + 'b) \<Rightarrow> 'a list \<Rightarrow> error + 'b list" where
  "map_raising f [] = Inr []"
| "map_raising f (x # xs) =
     and_then (f x) (\<lambda>y. and_then (map_raising f xs) (\<lambda>ys. Inr (y # ys)))"

subsection \<open>Decimal representation of integers in messages\<close>

definition digit_char :: "nat \<Rightarrow> char" where
  "digit_char d = ''0123456789'' ! d"

function str_of_nat :: "nat \<Rightarrow> string" where
  "str_of_nat n = (if n < 10 then [digit_char n] else str_of_nat (n div 10) @ [digit_char (n mod 10)])"
  by pat_completeness auto
termination
  by (relation "measure id") auto

definition str_of_int :: "int \<Rightarrow> string" where
  "str_of_int i = (if i < 0 then ''-'' @ str_of_nat (nat (- i)) else str_of_nat (nat i))"

subsection \<open>The domain of the invariants\<close>

text \<open>
  The source is generic in the field \<open>K\<close> of the invariants. Its elements are the
  type \<open>'a\<close>; what the source asks of \<open>K\<close> beyond field arithmetic and equality is a
  record of operations: \<^verbatim>\<open>K.characteristic()\<close>, \<^verbatim>\<open>x.is_square()\<close>, \<^verbatim>\<open>sqrt(x)\<close>,
  \<^verbatim>\<open>x.factor()\<close> (the pairs of a prime and its exponent; it raises on what has no
  factorisation) and \<^verbatim>\<open>gcd(xs)\<close> of a sequence.
\<close>

record 'a domain =
  characteristic :: nat
  is_square :: "'a \<Rightarrow> bool"
  sqrt_of :: "'a \<Rightarrow> 'a"
  factor :: "'a \<Rightarrow> error + ('a \<times> int) list"
  gcd_of :: "'a list \<Rightarrow> 'a"

text \<open>Inversion and division raise \<^verbatim>\<open>ZeroDivisionError\<close> on a zero divisor, and so does a
  negative power of zero.\<close>

definition inv_K :: "'a::field \<Rightarrow> error + 'a" where
  "inv_K x = (if x = 0 then Inl ZeroDivisionError else Inr (inverse x))"

definition div_K :: "'a::field \<Rightarrow> 'a \<Rightarrow> error + 'a" where
  "div_K x y = (if y = 0 then Inl ZeroDivisionError else Inr (x / y))"

definition pow_K :: "'a::field \<Rightarrow> int \<Rightarrow> error + 'a" where
  "pow_K x n = (if 0 \<le> n then Inr (x ^ nat n) else inv_K (x ^ nat (- n)))"

subsection \<open>\<^verbatim>\<open>reduce_invariants\<close>\<close>

text \<open>
  \<^verbatim>\<open>factors[i][p]\<close> after the inner loop has stored \<^verbatim>\<open>D[p] = 0\<close> in every dictionary
  that lacks \<open>p\<close>: the exponent of \<open>p\<close>, or 0. The primes of one factorisation are
  distinct, so the stored zeros are never read under another key.
\<close>

definition exponent_in :: "('a \<times> int) list \<Rightarrow> 'a \<Rightarrow> int" where
  "exponent_in D p = (case map_of D p of None \<Rightarrow> 0 | Some e \<Rightarrow> e)"

text \<open>\<^verbatim>\<open>[factors[i][p]//weights[i] for i in range(n)]\<close>\<close>

definition weighted_exponents ::
  "('a \<times> int) list list \<Rightarrow> int list \<Rightarrow> 'a \<Rightarrow> error + int list" where
  "weighted_exponents factors weights p =
     map_raising (\<lambda>i.
        if i < length factors then
          (if weights ! i = 0 then Inl ZeroDivisionError
           else Inr (exponent_in (factors ! i) p div weights ! i))
        else Inl IndexError) [0..<length weights]"

text \<open>One round of the loop over the primes of the gcd: the new value of \<^verbatim>\<open>scalar\<close>.\<close>

definition reduce_step ::
  "('a \<times> int) list list \<Rightarrow> int list \<Rightarrow> 'a::field \<Rightarrow> 'a \<Rightarrow> error + 'a" where
  "reduce_step factors weights p scalar =
     and_then (weighted_exponents factors weights p) (\<lambda>es.
       if es = [] then Inl (ValueError ''min() arg is an empty sequence'')
       else and_then (pow_K p (Min (set es))) (\<lambda>q. Inr (scalar * q)))"

fun reduce_loop ::
  "('a \<times> int) list list \<Rightarrow> int list \<Rightarrow> ('a::field \<times> int) list \<Rightarrow> 'a \<Rightarrow> error + 'a" where
  "reduce_loop factors weights [] scalar = Inr scalar"
| "reduce_loop factors weights (prime # primes) scalar =
     and_then (reduce_step factors weights (fst prime) scalar)
       (reduce_loop factors weights primes)"

definition reduce_invariants ::
  "'a::field domain \<Rightarrow> 'a list \<Rightarrow> int list \<Rightarrow> error + 'a list" where
  "reduce_invariants K invariants weights =
     and_then (map_raising (factor K) invariants) (\<lambda>factors.
     and_then (factor K (gcd_of K invariants)) (\<lambda>primes.
     and_then (reduce_loop factors weights primes 1) (\<lambda>scalar.
       map_raising (\<lambda>i.
          if i < length invariants then
            and_then (pow_K scalar (- (weights ! i))) (\<lambda>s. Inr (invariants ! i * s))
          else Inl IndexError)
         [0..<length weights])))"

subsection \<open>\<^verbatim>\<open>binary_quadratic_from_invariants\<close> and \<^verbatim>\<open>binary_cubic_from_invariants\<close>\<close>

text \<open>
  Python is dynamically typed, and the dispatcher hands the whole list of invariants
  to these two functions where they expect the discriminant. A value is therefore a
  field element or a sequence; \<^verbatim>\<open>discriminant == 0\<close> is false for every sequence.
\<close>

datatype 'a py_value = Scalar 'a | Sequence "'a list"

definition equals_zero :: "'a::zero py_value \<Rightarrow> bool" where
  "equals_zero v = (case v of Scalar x \<Rightarrow> x = 0 | Sequence xs \<Rightarrow> False)"

definition binary_quadratic_from_invariants ::
  "'a::field py_value \<Rightarrow> string \<Rightarrow> error + 'a list" where
  "binary_quadratic_from_invariants discriminant invariant_choice =
     (if invariant_choice \<notin> {''default'', ''discriminant''} then
        Inl (ValueError (''Unknown choice of invariants '' @ invariant_choice
                          @ '' for a binary quadratic.''))
      else if equals_zero discriminant then Inr [1, 0, 0]
      else Inr [0, 1, 0])"

definition binary_cubic_from_invariants ::
  "'a::field py_value \<Rightarrow> string \<Rightarrow> error + 'a list" where
  "binary_cubic_from_invariants discriminant invariant_choice =
     (if invariant_choice \<notin> {''default'', ''discriminant''} then
        Inl (ValueError (''Unknown choice of invariants '' @ invariant_choice
                          @ '' for a binary cubic''))
      else if equals_zero discriminant then
        Inl (ValueError ''No unique reconstruction possible for binary cubics with a double root.'')
      else Inr [0, 1, - 1, 0])"

subsection \<open>\<^verbatim>\<open>binary_quintic_from_invariants\<close>\<close>

text \<open>The four lists of scale factors of the option \<^verbatim>\<open>scaling='normalized'\<close>.\<close>

definition scale_alpha_gamma :: "'a::field \<Rightarrow> 'a \<Rightarrow> error + 'a list" where
  \<comment> \<open>\<^verbatim>\<open>[ A**-14*(R/A**3)**i for i in range(6) ]\<close>\<close>
  "scale_alpha_gamma A R =
     map_raising (\<lambda>i. and_then (pow_K A (- 14)) (\<lambda>u.
                        and_then (div_K R (A ^ 3)) (\<lambda>q. Inr (u * q ^ i)))) [0..<6]"

definition scale_sqrt_A :: "'a::field domain \<Rightarrow> 'a \<Rightarrow> error + 'a list" where
  \<comment> \<open>\<^verbatim>\<open>[ sqrt(A)**(i-18) for i in range(6) ]\<close>\<close>
  "scale_sqrt_A K A = map_raising (\<lambda>i. pow_K (sqrt_of K A) (int i - 18)) [0..<6]"

definition scale_R_B :: "'a::field \<Rightarrow> 'a \<Rightarrow> error + 'a list" where
  \<comment> \<open>\<^verbatim>\<open>[ R**-2*(R/B**2)**i for i in range(6) ]\<close>\<close>
  "scale_R_B R B =
     map_raising (\<lambda>i. and_then (pow_K R (- 2)) (\<lambda>u.
                        and_then (div_K R (B ^ 2)) (\<lambda>q. Inr (u * q ^ i)))) [0..<6]"

definition scale_R_A :: "'a::field \<Rightarrow> 'a \<Rightarrow> error + 'a list" where
  \<comment> \<open>\<^verbatim>\<open>[ A**-9*(R/A**4)**i for i in range(6) ]\<close>\<close>
  "scale_R_A A R =
     map_raising (\<lambda>i. and_then (pow_K A (- 9)) (\<lambda>u.
                        and_then (div_K R (A ^ 4)) (\<lambda>q. Inr (u * q ^ i)))) [0..<6]"

definition no_scale :: "'a::field list" where
  "no_scale = [1, 1, 1, 1, 1, 1]"

text \<open>
  Line 469, \<^verbatim>\<open>coeffs = tuple([K((-1)**i*binomial(5,i)*scale[5-i]*a[i]) for i in range(6)])\<close>.
\<close>

definition signed_binomial_coeffs :: "'a::field list \<Rightarrow> 'a list \<Rightarrow> 'a list" where
  "signed_binomial_coeffs scale a =
     map (\<lambda>i. (- 1) ^ i * of_nat (5 choose i) * scale ! (5 - i) * a ! i) [0..<6]"

text \<open>
  Lines 470 to 474: under \<^verbatim>\<open>scaling='coprime'\<close> every coefficient is divided by the gcd
  of the six.
\<close>

definition return_coeffs :: "'a::field domain \<Rightarrow> string \<Rightarrow> 'a list \<Rightarrow> error + 'a list" where
  "return_coeffs K scaling coeffs =
     (if scaling = ''coprime'' then
        map_raising (\<lambda>i. div_K (coeffs ! i) (gcd_of K coeffs)) [0..<6]
      else Inr coeffs)"

text \<open>
  The common tail of the two general branches, from \<^verbatim>\<open>a[0] = ...\<close> to the return.
  \<open>i2\<close> and \<open>i3\<close> are \<^verbatim>\<open>K(2)**-1\<close> and \<^verbatim>\<open>K(3)**-1\<close>, already computed by then.
\<close>

definition quintic_tail ::
  "'a::field domain \<Rightarrow> string \<Rightarrow> 'a \<Rightarrow> 'a \<Rightarrow> 'a \<Rightarrow> 'a \<Rightarrow> 'a \<Rightarrow> 'a list
     \<Rightarrow> 'a \<Rightarrow> 'a \<Rightarrow> 'a \<Rightarrow> 'a \<Rightarrow> 'a \<Rightarrow> 'a \<Rightarrow> 'a \<Rightarrow> error + 'a list" where
  "quintic_tail K scaling i2 i3 A B R scale D Delta a1 B0 B1 C0 C1 =
     (let a0 = (2 * i3 * A ^ 2 - B) * R;
          a2 = - D * B0 - i2 * Delta * a0;
          a3 = - D * B1 - i2 * Delta * a1
      in and_then (inv_K 4) (\<lambda>i4.
      let a4 = D ^ 2 * C0 + D * Delta * B0 + i4 * Delta ^ 2 * a0;
          a5 = D ^ 2 * C1 + D * Delta * B1 + i4 * Delta ^ 2 * a1
      in return_coeffs K scaling (signed_binomial_coeffs scale [a0, a1, a2, a3, a4, a5])))"

text \<open>The branch \<^verbatim>\<open>M == 0\<close>, \<^verbatim>\<open>N != 0\<close>, \<^verbatim>\<open>A != 0\<close>: \<open>\<alpha>\<close> and \<open>\<gamma>\<close> as coordinates.\<close>

definition alpha_gamma ::
  "'a::field domain \<Rightarrow> string \<Rightarrow> 'a \<Rightarrow> 'a \<Rightarrow> 'a \<Rightarrow> 'a \<Rightarrow> 'a \<Rightarrow> 'a \<Rightarrow> 'a list
     \<Rightarrow> error + 'a list" where
  "alpha_gamma K scaling i2 A B C N R scale =
     and_then (inv_K 3) (\<lambda>i3.
       let D = - N;
           Delta = C;
           a1 = (2 * i3 * A ^ 2 - B) * N * B * i2 - N ^ 2 * i2;
           B0 = 2 * i3 * A * R;
           B1 = A * N * B * i3;
           C0 = 2 * i3 * R;
           C1 = B * N
       in quintic_tail K scaling i2 i3 A B R scale D Delta a1 B0 B1 C0 C1)"

text \<open>The branch \<^verbatim>\<open>M != 0\<close>: \<open>\<alpha>\<close> and \<open>\<beta>\<close> as coordinates.\<close>

definition alpha_beta ::
  "'a::field domain \<Rightarrow> string \<Rightarrow> 'a \<Rightarrow> 'a \<Rightarrow> 'a \<Rightarrow> 'a \<Rightarrow> 'a \<Rightarrow> 'a \<Rightarrow> 'a list
     \<Rightarrow> error + 'a list" where
  "alpha_beta K scaling i2 A B M N R scale =
     and_then (inv_K 3) (\<lambda>i3.
       let D = - M;
           Delta = A;
           a1 = (2 * i3 * A ^ 2 - B) * (N * A - M * B) * i2 - M * (N * i2 - M * A * i3);
           B0 = R;
           B1 = i2 * (N * A - M * B);
           C0 = 0;
           C1 = - M
       in quintic_tail K scaling i2 i3 A B R scale D Delta a1 B0 B1 C0 C1)"

text \<open>
  The case analysis from \<^verbatim>\<open>if M == 0:\<close> to the end of the function, on the values
  of \<open>A\<close>, \<open>B\<close>, \<open>C\<close>, \<open>M\<close>, \<open>N\<close> and \<open>R\<close> that the first half has left.
\<close>

definition quintic_cases ::
  "'a::field domain \<Rightarrow> string \<Rightarrow> 'a \<Rightarrow> 'a \<times> 'a \<times> 'a \<times> 'a \<times> 'a \<times> 'a \<Rightarrow> error + 'a list" where
  "quintic_cases K scaling i2 v =
     (case v of (A, B, C, M, N, R) \<Rightarrow>
      if M = 0 then
        (if N = 0 then
           (if A = 0 then
              Inl (ValueError ''No unique reconstruction possible for quintics with a treefold linear factor.'')
            else if B = 0 then Inr [1, 0, 0, 0, 0, 1]
            else Inr [0, 1, 0, 0, 1, 0])
         else
           (if A = 0 then Inr [1, 0, 0, 0, 1, 0]
            else and_then (if scaling = ''normalized'' then scale_alpha_gamma A R else Inr no_scale)
                   (alpha_gamma K scaling i2 A B C N R)))
      else
        (if R = 0 then
           (if A = 0 then Inr [1, 0, 10, 0, - 15, 0]
            else and_then (if scaling = ''normalized'' then scale_sqrt_A K A else Inr no_scale)
                   (alpha_beta K scaling i2 A B M N R))
         else
           (if A = 0 then
              (if B = 0 then Inr [1, 0, 0, 1, 0, 0]
               else and_then (if scaling = ''normalized'' then scale_R_B R B else Inr no_scale)
                      (alpha_beta K scaling i2 A B M N R))
            else and_then (if scaling = ''normalized'' then scale_R_A A R else Inr no_scale)
                   (alpha_beta K scaling i2 A B M N R))))"

text \<open>Lines 377 to 381: under \<^verbatim>\<open>scaling='coprime'\<close> three or four invariants are reduced.\<close>

definition coprime_input :: "'a::field domain \<Rightarrow> string \<Rightarrow> 'a list \<Rightarrow> error + 'a list" where
  "coprime_input K scaling invariants =
     (if scaling = ''coprime'' then
        (if length invariants = 3 then reduce_invariants K invariants [1, 2, 3]
         else if length invariants = 4 then reduce_invariants K invariants [2, 4, 6, 9]
         else Inr invariants)
      else Inr invariants)"

text \<open>
  Lines 394 to 410: the choice of \<open>R\<close>, with the rescaling of the invariants by powers
  of \<open>R2\<close> when three invariants are given and \<open>R2\<close> is not a square.
\<close>

definition syzygy_root ::
  "'a::field domain \<Rightarrow> 'a list \<Rightarrow> 'a \<Rightarrow> 'a \<Rightarrow> 'a \<Rightarrow> 'a \<Rightarrow> 'a \<Rightarrow> 'a
     \<Rightarrow> error + ('a \<times> 'a \<times> 'a \<times> 'a \<times> 'a \<times> 'a)" where
  "syzygy_root K invariants A B C M N R2 =
     (if length invariants = 3 then
        (if is_square K R2 then Inr (A, B, C, M, N, sqrt_of K R2)
         else Inr (R2 * A, R2 ^ 2 * B, R2 ^ 3 * C, R2 ^ 3 * M, R2 ^ 4 * N, R2 ^ 5))
      else if length invariants = 4 then
        (if (invariants ! 3) ^ 2 \<noteq> R2 then
           Inl (ValueError ''Provided invariants do not satisfy the syzygy for Clebsch invariants of a binary quintic.'')
         else Inr (A, B, C, M, N, invariants ! 3))
      else Inl (ValueError ''Incorrect number of invariants provided. This method requires 3 or 4 invariants.''))"

text \<open>
  \<^verbatim>\<open>A, B, C = invariants[0:3]\<close> raises the interpreter's \<^verbatim>\<open>ValueError\<close> on fewer
  than three values.
\<close>

definition unpack_error :: "nat \<Rightarrow> error" where
  "unpack_error n =
     ValueError (''need more than '' @ str_of_nat n
                  @ (if n = 1 then '' value'' else '' values'') @ '' to unpack'')"

text \<open>
  Lines 389 to 391: \<open>M\<close>, \<open>N\<close> and \<open>R2\<close>, the square of the invariant \<open>R\<close> by the
  syzygy. \<open>i2\<close> is \<^verbatim>\<open>K(2)**-1\<close>.
\<close>

definition invariant_M :: "'a::field \<Rightarrow> 'a \<Rightarrow> 'a \<Rightarrow> 'a" where
  "invariant_M A B C = 2 * A * B - 3 * C"

definition invariant_N :: "'a::field \<Rightarrow> 'a \<Rightarrow> 'a \<Rightarrow> 'a \<Rightarrow> 'a" where
  "invariant_N i2 A B C = i2 * (A * C - B ^ 2)"

definition invariant_R2 :: "'a::field \<Rightarrow> 'a \<Rightarrow> 'a \<Rightarrow> 'a \<Rightarrow> 'a" where
  "invariant_R2 i2 A B C =
     (let M = invariant_M A B C; N = invariant_N i2 A B C
      in - i2 * (A * N ^ 2 - 2 * B * M * N + C * M ^ 2))"

text \<open>
  The first half of the function, lines 372 to 410: the checks of the arguments and the
  values of \<^verbatim>\<open>K(2)**-1\<close> and of \<open>A\<close>, \<open>B\<close>, \<open>C\<close>, \<open>M\<close>, \<open>N\<close>, \<open>R\<close> with which the case
  analysis starts.
\<close>

definition clebsch_values ::
  "'a::field domain \<Rightarrow> 'a list \<Rightarrow> string \<Rightarrow> string
     \<Rightarrow> error + ('a \<times> 'a \<times> 'a \<times> 'a \<times> 'a \<times> 'a \<times> 'a)" where
  "clebsch_values K invariants invariant_choice scaling =
     (if invariant_choice \<notin> {''default'', ''clebsch''} then
        Inl (ValueError (''Unknown choice of invariants '' @ invariant_choice
                          @ '' for a binary quintic''))
      else if scaling \<notin> {''none'', ''normalized'', ''coprime''} then
        Inl (ValueError (''Unknown scaling option '' @ [CHR 0x27] @ scaling @ [CHR 0x27] @ ''.''))
      else
        and_then (coprime_input K scaling invariants) (\<lambda>invariants.
          case take 3 invariants of
            [A, B, C] \<Rightarrow>
              if characteristic K \<in> {2, 3, 5} then
                Inl (NotImplementedError ''No reconstruction of binary quintics implemented for fields of characteristic 2, 3 or 5.'')
              else
                and_then (inv_K 2) (\<lambda>i2.
                  let M = invariant_M A B C;
                      N = invariant_N i2 A B C;
                      R2 = invariant_R2 i2 A B C
                  in and_then (syzygy_root K invariants A B C M N R2) (\<lambda>v. Inr (i2, v)))
          | _ \<Rightarrow> Inl (unpack_error (length invariants))))"

definition binary_quintic_from_invariants ::
  "'a::field domain \<Rightarrow> 'a list \<Rightarrow> string \<Rightarrow> string \<Rightarrow> error + 'a list" where
  "binary_quintic_from_invariants K invariants invariant_choice scaling =
     and_then (clebsch_values K invariants invariant_choice scaling)
       (\<lambda>(i2, v). quintic_cases K scaling i2 v)"

subsection \<open>\<^verbatim>\<open>binary_form_from_invariants\<close>\<close>

text \<open>
  The result is the tuple of coefficients or, with \<^verbatim>\<open>as_form\<close>, the form
  \<open>\<Sum>i. coeffs[i] * x^(degree-i) * z^i\<close>, kept as the list of its terms: the
  coefficient with the exponents of \<open>x\<close> and of \<open>z\<close>. Of the arguments that the
  dispatcher forwards, \<^verbatim>\<open>invariant_choice\<close> and \<^verbatim>\<open>scaling\<close> are modelled, each given
  or left out; the functions for degree 2 and 3 take no \<^verbatim>\<open>scaling\<close>, and Python
  raises \<^verbatim>\<open>TypeError\<close> on it.
\<close>

datatype 'a form = Coefficients "'a list" | Form "('a \<times> nat \<times> nat) list"

definition or_default :: "'b option \<Rightarrow> 'b \<Rightarrow> 'b" where
  "or_default v d = (case v of None \<Rightarrow> d | Some x \<Rightarrow> x)"

definition as_polynomial :: "nat \<Rightarrow> 'a list \<Rightarrow> 'a form" where
  "as_polynomial degree coeffs = Form (map (\<lambda>i. (coeffs ! i, degree - i, i)) [0..<degree + 1])"

definition binary_form_from_invariants ::
  "'a::field domain \<Rightarrow> int \<Rightarrow> 'a list \<Rightarrow> bool \<Rightarrow> string option \<Rightarrow> string option
     \<Rightarrow> error + 'a form" where
  "binary_form_from_invariants K degree invariants as_form invariant_choice scaling =
     and_then
       (if degree = 2 then
          (if length invariants = 1 then
             (if scaling \<noteq> None then Inl TypeError
              else binary_quadratic_from_invariants (Sequence invariants)
                     (or_default invariant_choice ''default''))
           else Inl (ValueError ''Incorrect number of invariants provided. Only one invariant should be provided.''))
        else if degree = 3 then
          (if length invariants = 1 then
             (if scaling \<noteq> None then Inl TypeError
              else binary_cubic_from_invariants (Sequence invariants)
                     (or_default invariant_choice ''default''))
           else Inl (ValueError ''Incorrect number of invariants provided. Only one invariant should be provided.''))
        else if degree = 5 then
          binary_quintic_from_invariants K invariants
            (or_default invariant_choice ''clebsch'') (or_default scaling ''none'')
        else
          Inl (NotImplementedError (''No reconstruction for binary forms of '' @ str_of_int degree
                                     @ '' implemented.'')))
       (\<lambda>coeffs. if as_form then Inr (as_polynomial (nat degree) coeffs)
                   else Inr (Coefficients coeffs))"

subsection \<open>The rationals\<close>

text \<open>
  The field \<open>\<rat>\<close> with the operations as Sage has them. A rational is a square when
  it is not negative and the numerator and the denominator of its reduced fraction
  are squares of integers; its root is then the quotient of their roots. The root of
  a rational that is no square is not rational: there \<open>sqrt_QQ\<close> rounds the roots of
  the absolute values up, and stands for Sage's root only in being nonzero with its
  argument.
\<close>

function root_from :: "nat \<Rightarrow> nat \<Rightarrow> nat" where
  "root_from n k = (if k * k < n then root_from n (Suc k) else k)"
  by pat_completeness auto
termination
proof (relation "measure (\<lambda>(n, k). n - k)")
  show "wf (measure (\<lambda>(n, k). n - k))" by simp
next
  fix n k :: nat
  assume "k * k < n"
  moreover have "k \<le> k * k" by (cases k) simp_all
  ultimately have "k < n" by (rule le_less_trans [rotated])
  then show "((n, Suc k), (n, k)) \<in> measure (\<lambda>(n, k). n - k)" by simp
qed

definition sqrt_nat :: "nat \<Rightarrow> nat" where
  "sqrt_nat n = root_from n 0"

definition is_square_nat :: "nat \<Rightarrow> bool" where
  "is_square_nat n = (sqrt_nat n * sqrt_nat n = n)"

definition is_square_QQ :: "rat \<Rightarrow> bool" where
  "is_square_QQ q =
     (case quotient_of q of (a, b) \<Rightarrow> 0 \<le> a \<and> is_square_nat (nat a) \<and> is_square_nat (nat b))"

definition sqrt_QQ :: "rat \<Rightarrow> rat" where
  "sqrt_QQ q =
     (case quotient_of q of (a, b) \<Rightarrow>
        Fract (int (sqrt_nat (nat \<bar>a\<bar>))) (int (sqrt_nat (nat b))))"

text \<open>
  The factorisation of a rational other than 0: the primes of the numerator with
  their multiplicities and the primes of the denominator with the negated ones, in
  increasing order. The sign is the unit of the factorisation and is no pair of it.
  There is no factorisation of 0.
\<close>

function multiplicity :: "nat \<Rightarrow> nat \<Rightarrow> nat" where
  "multiplicity p n =
     (if 2 \<le> p \<and> 0 < n \<and> p dvd n then Suc (multiplicity p (n div p)) else 0)"
  by pat_completeness auto
termination
  by (relation "measure snd") auto

definition is_prime :: "nat \<Rightarrow> bool" where
  "is_prime p = (2 \<le> p \<and> (\<forall>d \<in> set [2..<p]. \<not> d dvd p))"

definition valuation :: "nat \<Rightarrow> rat \<Rightarrow> int" where
  "valuation p q =
     (case quotient_of q of (a, b) \<Rightarrow>
        int (multiplicity p (nat \<bar>a\<bar>)) - int (multiplicity p (nat b)))"

definition factor_QQ :: "rat \<Rightarrow> error + (rat \<times> int) list" where
  "factor_QQ q =
     (if q = 0 then Inl ArithmeticError
      else case quotient_of q of (a, b) \<Rightarrow>
        Inr (map (\<lambda>p. (of_nat p, valuation p q))
               (filter (\<lambda>p. is_prime p \<and> valuation p q \<noteq> 0)
                  [2..<Suc (max (nat \<bar>a\<bar>) (nat b))])))"

text \<open>
  The gcd of two rationals is the generator that is not negative of the fractional
  ideal they span, \<open>gcd (a/b) (c/d) = gcd (a*d) (c*b) / (b*d)\<close>; the gcd of a sequence
  folds it over the elements, from 0.
\<close>

definition gcd_rat :: "rat \<Rightarrow> rat \<Rightarrow> rat" where
  "gcd_rat x y =
     (case quotient_of x of (a, b) \<Rightarrow>
      case quotient_of y of (c, d) \<Rightarrow> Fract (gcd (a * d) (c * b)) (b * d))"

definition gcd_QQ :: "rat list \<Rightarrow> rat" where
  "gcd_QQ xs = fold gcd_rat xs 0"

text \<open>The field of the record has the characteristic that the record gives.\<close>

definition has_characteristic :: "'a::field domain \<Rightarrow> bool" where
  "has_characteristic K = (\<forall>n::nat. (of_nat n = (0::'a)) = (characteristic K dvd n))"

definition QQ :: "rat domain" where
  "QQ = \<lparr> characteristic = 0, is_square = is_square_QQ, sqrt_of = sqrt_QQ,
          factor = factor_QQ, gcd_of = gcd_QQ \<rparr>"

subsection \<open>The reduction in the words of the specification\<close>

text \<open>
  The specification words \<^verbatim>\<open>reduce_invariants\<close> as four steps: factor each invariant;
  factor the gcd of the invariants; for each prime \<open>p\<close> of that gcd let \<open>e\<^sub>p\<close> be the
  least, over the invariants, of the floor of the multiplicity of \<open>p\<close> in the invariant
  divided by its weight, and let the scalar be the product of the \<open>p ^ e\<^sub>p\<close>; return
  the invariants, each multiplied with the scalar to the power of minus its weight.
  These definitions follow those words, over the rationals; the multiplicity of a
  prime in a rational is its \<open>valuation\<close>. They are compared with the function of the
  source below.
\<close>

text \<open>The primes of a rational other than 0, in increasing order.\<close>

definition prime_divisors :: "rat \<Rightarrow> nat list" where
  "prime_divisors q =
     (case quotient_of q of (a, b) \<Rightarrow>
        filter (\<lambda>p. is_prime p \<and> valuation p q \<noteq> 0) [2..<Suc (max (nat \<bar>a\<bar>) (nat b))])"

text \<open>\<open>e\<^sub>p\<close>: the least floor of a multiplicity divided by its weight.\<close>

definition weighted_exponent :: "rat list \<Rightarrow> int list \<Rightarrow> nat \<Rightarrow> int" where
  "weighted_exponent invariants weights p =
     Min (set (map (\<lambda>i. valuation p (invariants ! i) div weights ! i) [0..<length weights]))"

text \<open>The scalar: the product of \<open>p ^ e\<^sub>p\<close> over the primes of the gcd.\<close>

definition common_scalar :: "rat list \<Rightarrow> int list \<Rightarrow> rat" where
  "common_scalar invariants weights =
     prod_list (map (\<lambda>p. of_nat p powi weighted_exponent invariants weights p)
                  (prime_divisors (gcd_QQ invariants)))"

text \<open>The result: \<open>invariants[i] * scalar ^ (- weights[i])\<close>.\<close>

definition reduce_invariants_spec :: "rat list \<Rightarrow> int list \<Rightarrow> rat list" where
  "reduce_invariants_spec invariants weights =
     map (\<lambda>i. invariants ! i * common_scalar invariants weights powi (- (weights ! i)))
       [0..<length weights]"

text \<open>The pairs of the factorisation of a rational other than 0, as \<open>factor_QQ\<close> lists them.\<close>

definition prime_powers :: "rat \<Rightarrow> (rat \<times> int) list" where
  "prime_powers q = map (\<lambda>p. (of_nat p, valuation p q)) (prime_divisors q)"

section \<open>Properties\<close>

subsection \<open>Auxiliary facts\<close>

lemma and_then_simps [simp]:
  "and_then (Inl e) f = Inl e" "and_then (Inr v) f = f v"
  by (simp_all add: and_then_def)

lemma characteristic_divisor:
  assumes "has_characteristic (K :: 'a::field domain)" and "of_nat n = (0::'a)" and "0 < n"
  shows "characteristic K dvd n \<and> 2 \<le> characteristic K \<and> characteristic K \<le> n"
proof -
  have d: "characteristic K dvd n"
    using assms(1,2) unfolding has_characteristic_def by blast
  have "characteristic K \<noteq> 0"
  proof
    assume "characteristic K = 0"
    with d assms(3) show False by simp
  qed
  moreover have "characteristic K \<noteq> 1"
  proof
    assume "characteristic K = 1"
    with assms(1) have "of_nat 1 = (0::'a)" unfolding has_characteristic_def by simp
    then show False by simp
  qed
  moreover have "characteristic K \<le> n" using d assms(3) by (rule dvd_imp_le)
  ultimately show ?thesis using d by simp
qed

lemma two_nonzero:
  assumes "has_characteristic (K :: 'a::field domain)" "characteristic K \<notin> {2, 3, 5}"
  shows "(2::'a) \<noteq> 0"
proof
  assume "(2::'a) = 0"
  then have "of_nat 2 = (0::'a)" by simp
  from characteristic_divisor [OF assms(1) this] have "characteristic K = 2" by simp
  with assms(2) show False by simp
qed



lemma QQ_has_characteristic: "has_characteristic QQ"
  by (simp add: has_characteristic_def QQ_def)

lemma take3: "5 \<le> length xs \<Longrightarrow> \<exists>A B C. take 3 xs = [A, B, C]"
proof -
  assume "5 \<le> length xs"
  then obtain a b c ys where "xs = a # b # c # ys"
    by (cases xs; cases "tl xs"; cases "tl (tl xs)") auto
  then show ?thesis by simp
qed


lemma upt_6: "[0..<6] = [0, 1, 2, 3, 4, 5]"
  by (simp add: upt_rec)

lemma map_raising_total:
  assumes "\<And>x. x \<in> set xs \<Longrightarrow> f x = Inr (g x)"
  shows "map_raising f xs = Inr (map g xs)"
  using assms by (induction xs) simp_all

lemma map_raising_error:
  assumes "map_raising f xs = Inl e"
  shows "\<exists>x \<in> set xs. f x = Inl e"
  using assms
proof (induction xs)
  case Nil
  then show ?case by simp
next
  case (Cons x xs)
  then show ?case
    by (cases "f x"; cases "map_raising f xs") auto
qed











lemma inv_K_error: "inv_K x = Inl e \<Longrightarrow> e = ZeroDivisionError"
  by (auto simp: inv_K_def split: if_splits)

lemma div_K_error: "div_K x y = Inl e \<Longrightarrow> e = ZeroDivisionError"
  by (auto simp: div_K_def split: if_splits)

lemma pow_K_error: "pow_K x n = Inl e \<Longrightarrow> e = ZeroDivisionError"
  by (auto simp: pow_K_def split: if_splits dest: inv_K_error)

lemma and_then_error:
  "and_then m f = Inl e \<Longrightarrow> m = Inl e \<or> (\<exists>v. m = Inr v \<and> f v = Inl e)"
  by (cases m) simp_all

lemma scale_alpha_gamma_error: "scale_alpha_gamma A R = Inl e \<Longrightarrow> e = ZeroDivisionError"
  unfolding scale_alpha_gamma_def
  by (drule map_raising_error) (auto dest!: and_then_error dest: pow_K_error div_K_error)

lemma scale_sqrt_A_error: "scale_sqrt_A K A = Inl e \<Longrightarrow> e = ZeroDivisionError"
  unfolding scale_sqrt_A_def
  by (drule map_raising_error) (auto dest: pow_K_error)

lemma scale_R_B_error: "scale_R_B R B = Inl e \<Longrightarrow> e = ZeroDivisionError"
  unfolding scale_R_B_def
  by (drule map_raising_error) (auto dest!: and_then_error dest: pow_K_error div_K_error)

lemma scale_R_A_error: "scale_R_A A R = Inl e \<Longrightarrow> e = ZeroDivisionError"
  unfolding scale_R_A_def
  by (drule map_raising_error) (auto dest!: and_then_error dest: pow_K_error div_K_error)

lemma quintic_tail_error:
  "quintic_tail K scaling i2 i3 A B R scale D Delta a1 B0 B1 C0 C1 = Inl e
     \<Longrightarrow> e = ZeroDivisionError"
  unfolding quintic_tail_def return_coeffs_def Let_def
  by (auto dest!: and_then_error map_raising_error dest: inv_K_error div_K_error
           split: if_splits)

lemma alpha_gamma_error:
  "alpha_gamma K scaling i2 A B C N R scale = Inl e \<Longrightarrow> e = ZeroDivisionError"
  unfolding alpha_gamma_def Let_def
  by (auto dest!: and_then_error dest: inv_K_error quintic_tail_error)

lemma alpha_beta_error:
  "alpha_beta K scaling i2 A B M N R scale = Inl e \<Longrightarrow> e = ZeroDivisionError"
  unfolding alpha_beta_def Let_def
  by (auto dest!: and_then_error dest: inv_K_error quintic_tail_error)

lemma quintic_cases_error:
  assumes "quintic_cases K scaling i2 v = Inl e"
  shows "e = ZeroDivisionError
       \<or> e = ValueError ''No unique reconstruction possible for quintics with a treefold linear factor.''"
proof -
  obtain A B C M N R where v: "v = (A, B, C, M, N, R)" by (cases v) auto
  show ?thesis
    using assms unfolding v quintic_cases_def
    by (auto dest!: and_then_error
             dest: scale_alpha_gamma_error scale_sqrt_A_error scale_R_B_error scale_R_A_error
                   alpha_gamma_error alpha_beta_error
             split: if_splits)
qed




subsection \<open>Multiplicities, valuations and the gcd of rationals\<close>

declare multiplicity.simps [simp del]

lemma multiplicity_dvd:
  "2 \<le> p \<Longrightarrow> 0 < n \<Longrightarrow> p dvd n \<Longrightarrow> multiplicity p n = Suc (multiplicity p (n div p))"
  by (subst multiplicity.simps) simp

lemma multiplicity_not_dvd: "\<not> p dvd n \<Longrightarrow> multiplicity p n = 0"
  by (subst multiplicity.simps) simp

lemma power_multiplicity_dvd: "p ^ multiplicity p n dvd n"
proof (induction p n rule: multiplicity.induct)
  case (1 p n)
  show ?case
  proof (cases "2 \<le> p \<and> 0 < n \<and> p dvd n")
    case True
    then have m: "multiplicity p n = Suc (multiplicity p (n div p))"
      by (simp add: multiplicity_dvd)
    from True "1.IH" have "p ^ multiplicity p (n div p) dvd n div p" by simp
    then have "p * p ^ multiplicity p (n div p) dvd p * (n div p)" by (rule mult_dvd_mono [OF dvd_refl])
    moreover have "p * (n div p) = n" using True by simp
    ultimately show ?thesis using m by simp
  next
    case False
    then have "multiplicity p n = 0" by (subst multiplicity.simps) simp
    then show ?thesis by simp
  qed
qed

lemma multiplicity_maximal:
  "2 \<le> p \<Longrightarrow> 0 < n \<Longrightarrow> \<not> p ^ Suc (multiplicity p n) dvd n"
proof (induction p n rule: multiplicity.induct)
  case (1 p n)
  show ?case
  proof (cases "p dvd n")
    case True
    with "1.prems" have m: "multiplicity p n = Suc (multiplicity p (n div p))"
      by (simp add: multiplicity_dvd)
    have pos: "0 < n div p" using True "1.prems" by (auto elim!: dvdE)
    have n: "p * (n div p) = n" using True by simp
    from "1.IH" "1.prems" True pos
    have ih: "\<not> p ^ Suc (multiplicity p (n div p)) dvd n div p" by simp
    show ?thesis
    proof
      assume "p ^ Suc (multiplicity p n) dvd n"
      then have "p * p ^ Suc (multiplicity p (n div p)) dvd p * (n div p)"
        using m n by simp
      then have "p ^ Suc (multiplicity p (n div p)) dvd n div p"
        using "1.prems"(1) by (simp del: power_Suc)
      with ih show False by simp
    qed
  next
    case False
    then show ?thesis by (simp add: multiplicity_not_dvd)
  qed
qed

lemma power_dvd_iff_multiplicity:
  assumes "2 \<le> p" "0 < n"
  shows "(p ^ k dvd n) = (k \<le> multiplicity p n)"
proof
  assume d: "p ^ k dvd n"
  show "k \<le> multiplicity p n"
  proof (rule ccontr)
    assume "\<not> k \<le> multiplicity p n"
    then have "Suc (multiplicity p n) \<le> k" by simp
    then have "p ^ Suc (multiplicity p n) dvd p ^ k" by (rule le_imp_power_dvd)
    then have "p ^ Suc (multiplicity p n) dvd n" using d by (rule dvd_trans)
    with multiplicity_maximal [OF assms] show False by simp
  qed
next
  assume "k \<le> multiplicity p n"
  then have "p ^ k dvd p ^ multiplicity p n" by (rule le_imp_power_dvd)
  then show "p ^ k dvd n" using power_multiplicity_dvd by (rule dvd_trans)
qed

lemma multiplicity_gcd:
  assumes "2 \<le> p" "0 < a" "0 < b"
  shows "multiplicity p (gcd a b) = min (multiplicity p a) (multiplicity p b)"
proof -
  have g: "0 < gcd a b" using assms by simp
  have "\<And>k. (k \<le> multiplicity p (gcd a b)) = (k \<le> min (multiplicity p a) (multiplicity p b))"
    using power_dvd_iff_multiplicity [OF assms(1) g] power_dvd_iff_multiplicity [OF assms(1,2)]
      power_dvd_iff_multiplicity [OF assms(1,3)]
    by (metis gcd_greatest_iff min.bounded_iff)
  then show ?thesis by (metis order_antisym order_refl)
qed

lemma is_prime_divisor:
  assumes "is_prime p" "d dvd p"
  shows "d = 1 \<or> d = p"
proof -
  have p: "2 \<le> p" and nd: "\<And>k. 2 \<le> k \<Longrightarrow> k < p \<Longrightarrow> \<not> k dvd p"
    using assms(1) by (auto simp: is_prime_def)
  have "d \<noteq> 0"
  proof
    assume "d = 0"
    with assms(2) have "p = 0" by simp
    with p show False by simp
  qed
  moreover have "d \<le> p" using assms(2) p by (intro dvd_imp_le) simp_all
  ultimately show ?thesis using nd [of d] assms(2) by (cases "d = 1"; cases "d = p") auto
qed

lemma is_prime_coprime:
  assumes "is_prime p" "\<not> p dvd a"
  shows "coprime p a"
proof (rule coprimeI)
  fix d assume "d dvd p" "d dvd a"
  with is_prime_divisor [OF assms(1)] assms(2) show "is_unit d" by auto
qed

lemma is_prime_dvd_mult:
  assumes "is_prime p" "p dvd a * b"
  shows "p dvd a \<or> p dvd b"
  using assms is_prime_coprime coprime_dvd_mult_right_iff by blast

lemma multiplicity_power_mult:
  assumes "2 \<le> p" "0 < m"
  shows "multiplicity p (p ^ k * m) = k + multiplicity p m"
proof (induction k)
  case 0
  show ?case by simp
next
  case (Suc k)
  have "0 < p ^ Suc k * m" using assms by simp
  moreover have "p dvd p ^ Suc k * m" by simp
  ultimately have "multiplicity p (p ^ Suc k * m) = Suc (multiplicity p ((p ^ Suc k * m) div p))"
    using assms(1) by (intro multiplicity_dvd)
  moreover have "(p ^ Suc k * m) div p = p ^ k * m" using assms(1) by simp
  ultimately show ?case using Suc by simp
qed

lemma multiplicity_decompose:
  assumes "2 \<le> p" "0 < n"
  obtains m where "n = p ^ multiplicity p n * m" "\<not> p dvd m" "0 < m"
proof -
  from power_multiplicity_dvd [of p n] obtain m where m: "n = p ^ multiplicity p n * m" ..
  have "\<not> p dvd m"
  proof
    assume "p dvd m"
    then obtain r where "m = p * r" ..
    with m have "n = p ^ Suc (multiplicity p n) * r" by (simp add: ac_simps)
    then have "p ^ Suc (multiplicity p n) dvd n" by (metis dvd_triv_left)
    with multiplicity_maximal [OF assms] show False by simp
  qed
  moreover have "0 < m" using m assms(2) by (cases m) auto
  ultimately show ?thesis using m that by blast
qed

lemma multiplicity_mult:
  assumes "is_prime p" "0 < a" "0 < b"
  shows "multiplicity p (a * b) = multiplicity p a + multiplicity p b"
proof -
  have p: "2 \<le> p" using assms(1) by (simp add: is_prime_def)
  obtain a' where a: "a = p ^ multiplicity p a * a'" "\<not> p dvd a'" "0 < a'"
    using multiplicity_decompose [OF p assms(2)] by blast
  obtain b' where b: "b = p ^ multiplicity p b * b'" "\<not> p dvd b'" "0 < b'"
    using multiplicity_decompose [OF p assms(3)] by blast
  have nd: "\<not> p dvd a' * b'" using is_prime_dvd_mult [OF assms(1)] a(2) b(2) by blast
  have "a * b = p ^ (multiplicity p a + multiplicity p b) * (a' * b')"
    by (subst a(1), subst b(1)) (simp add: power_add)
  then have "multiplicity p (a * b) = multiplicity p a + multiplicity p b + multiplicity p (a' * b')"
    using multiplicity_power_mult [OF p, of "a' * b'"] a(3) b(3) by simp
  with nd show ?thesis by (simp add: multiplicity_not_dvd)
qed

lemma multiplicity_self: "is_prime p \<Longrightarrow> multiplicity p p = 1"
proof -
  assume "is_prime p"
  then have p: "2 \<le> p" by (simp add: is_prime_def)
  have "multiplicity p (p ^ 1 * 1) = 1 + multiplicity p 1"
    using p by (intro multiplicity_power_mult) simp_all
  moreover have "multiplicity p 1 = 0" using p by (intro multiplicity_not_dvd) simp
  ultimately show ?thesis by simp
qed

lemma multiplicity_other: "is_prime p \<Longrightarrow> is_prime q \<Longrightarrow> p \<noteq> q \<Longrightarrow> multiplicity p q = 0"
proof (rule multiplicity_not_dvd)
  assume "is_prime p" "is_prime q" "p \<noteq> q"
  show "\<not> p dvd q"
  proof
    assume "p dvd q"
    with is_prime_divisor [OF \<open>is_prime q\<close>] have "p = 1 \<or> p = q" by blast
    with \<open>p \<noteq> q\<close> \<open>is_prime p\<close> show False by (simp add: is_prime_def)
  qed
qed

lemma quotient_of_Fract_pos:
  assumes "0 < n"
  shows "quotient_of (Fract m n) = (m div gcd m n, n div gcd m n)"
  using assms by (simp add: quotient_of_Fract Rat.normalize_def Let_def)

lemma rat_as_Fract:
  assumes "quotient_of x = (a, b)"
  shows "x = Fract a b" "0 < b" "(a = 0) = (x = 0)"
proof -
  show x: "x = Fract a b" using quotient_of_div [OF assms] by (simp add: Fract_of_int_quotient)
  show b: "0 < b" using assms by (rule quotient_of_denom_pos)
  show "(a = 0) = (x = 0)" using x b by (simp add: Fract_of_int_quotient)
qed

lemma nat_abs_mult: "nat \<bar>a * b\<bar> = nat \<bar>a\<bar> * nat \<bar>b\<bar>"
  by (simp add: abs_mult nat_mult_distrib)

lemma valuation_Fract:
  assumes "is_prime p" "m \<noteq> 0" "0 < n"
  shows "valuation p (Fract m n) = int (multiplicity p (nat \<bar>m\<bar>)) - int (multiplicity p (nat n))"
proof -
  define g where "g = gcd m n"
  define m' where "m' = m div g"
  define n' where "n' = n div g"
  have g: "0 < g" using assms(3) by (simp add: g_def)
  have m: "m = g * m'" and n: "n = g * n'" by (simp_all add: g_def m'_def n'_def)
  have m'0: "m' \<noteq> 0" using m assms(2) by auto
  have n'0: "0 < n'" using n assms(3) g by (simp add: zero_less_mult_iff)
  have q: "quotient_of (Fract m n) = (m', n')"
    using quotient_of_Fract_pos [OF assms(3), of m] by (simp add: g_def m'_def n'_def)
  have "nat \<bar>m\<bar> = nat g * nat \<bar>m'\<bar>" using g by (subst m) (simp add: nat_abs_mult)
  then have 1: "multiplicity p (nat \<bar>m\<bar>) = multiplicity p (nat g) + multiplicity p (nat \<bar>m'\<bar>)"
    using multiplicity_mult [OF assms(1), of "nat g" "nat \<bar>m'\<bar>"] g m'0 by simp
  have "nat n = nat g * nat n'" using g by (subst n) (simp add: nat_mult_distrib)
  then have 2: "multiplicity p (nat n) = multiplicity p (nat g) + multiplicity p (nat n')"
    using multiplicity_mult [OF assms(1), of "nat g" "nat n'"] g n'0 by simp
  show ?thesis unfolding valuation_def q using 1 2 by simp
qed

lemma valuation_mult:
  assumes "is_prime p" "x \<noteq> 0" "y \<noteq> 0"
  shows "valuation p (x * y) = valuation p x + valuation p y"
proof -
  obtain a b where qx: "quotient_of x = (a, b)" by (cases "quotient_of x") auto
  obtain c d where qy: "quotient_of y = (c, d)" by (cases "quotient_of y") auto
  note x = rat_as_Fract [OF qx] and y = rat_as_Fract [OF qy]
  have a: "a \<noteq> 0" and c: "c \<noteq> 0" using x(3) y(3) assms(2,3) by simp_all
  have "x * y = Fract (a * c) (b * d)" by (subst x(1), subst y(1)) simp
  then have "valuation p (x * y) =
      int (multiplicity p (nat \<bar>a * c\<bar>)) - int (multiplicity p (nat (b * d)))"
    using valuation_Fract [OF assms(1), of "a * c" "b * d"] a c x(2) y(2) by simp
  moreover have "multiplicity p (nat \<bar>a * c\<bar>) = multiplicity p (nat \<bar>a\<bar>) + multiplicity p (nat \<bar>c\<bar>)"
    using multiplicity_mult [OF assms(1), of "nat \<bar>a\<bar>" "nat \<bar>c\<bar>"] a c by (simp add: nat_abs_mult)
  moreover have "multiplicity p (nat (b * d)) = multiplicity p (nat b) + multiplicity p (nat d)"
    using multiplicity_mult [OF assms(1), of "nat b" "nat d"] x(2) y(2)
    by (simp add: nat_mult_distrib)
  ultimately show ?thesis by (simp add: valuation_def qx qy)
qed

lemma valuation_one: "valuation p 1 = 0"
  by (simp add: valuation_def)

lemma valuation_inverse:
  assumes "is_prime p" "x \<noteq> 0"
  shows "valuation p (inverse x) = - valuation p x"
proof -
  have "valuation p (x * inverse x) = valuation p x + valuation p (inverse x)"
    using assms by (intro valuation_mult) simp_all
  then show ?thesis using assms(2) by (simp add: valuation_one)
qed

lemma valuation_power:
  assumes "is_prime p" "x \<noteq> 0"
  shows "valuation p (x ^ k) = int k * valuation p x"
proof (induction k)
  case 0
  show ?case by (simp add: valuation_one)
next
  case (Suc k)
  have "valuation p (x * x ^ k) = valuation p x + valuation p (x ^ k)"
    using assms by (intro valuation_mult) simp_all
  with Suc show ?case by (simp add: algebra_simps)
qed

lemma valuation_of_nat:
  assumes "is_prime p" "is_prime q"
  shows "valuation p (of_nat q) = (if p = q then 1 else 0)"
proof -
  have "quotient_of (of_nat q) = (int q, 1)"
    using quotient_of_int [of "int q"] by simp
  then show ?thesis
    using assms multiplicity_self [OF assms(1)] multiplicity_other [OF assms]
      multiplicity_not_dvd [of p 1]
    by (auto simp: valuation_def is_prime_def)
qed

lemma valuation_abs: "valuation p \<bar>x\<bar> = valuation p x"
proof -
  obtain a b where q: "quotient_of x = (a, b)" by (cases "quotient_of x") auto
  have "quotient_of (- x) = (- a, b)" using q by (simp add: rat_uminus_code)
  then show ?thesis using q by (cases "0 \<le> x") (simp_all add: valuation_def abs_if)
qed

lemma gcd_rat_Fract:
  assumes "0 < b" "0 < d"
  shows "gcd_rat (Fract a b) (Fract c d) = Fract (gcd (a * d) (c * b)) (b * d)"
proof -
  define g where "g = gcd a b"
  define h where "h = gcd c d"
  define a' b' c' d' where "a' = a div g" and "b' = b div g" and "c' = c div h" and "d' = d div h"
  have g: "0 < g" and h: "0 < h" using assms by (simp_all add: g_def h_def)
  have e: "a = g * a'" "b = g * b'" "c = h * c'" "d = h * d'"
    by (simp_all add: g_def h_def a'_def b'_def c'_def d'_def)
  have q: "quotient_of (Fract a b) = (a', b')" "quotient_of (Fract c d) = (c', d')"
    using quotient_of_Fract_pos [OF assms(1), of a] quotient_of_Fract_pos [OF assms(2), of c]
    by (simp_all add: g_def h_def a'_def b'_def c'_def d'_def)
  have "a * d = (g * a') * (h * d')" "c * b = (h * c') * (g * b')" "b * d = (g * b') * (h * d')"
    using e by simp_all
  then have 1: "a * d = (g * h) * (a' * d')" "c * b = (g * h) * (c' * b')"
    "b * d = (g * h) * (b' * d')"
    by (simp_all only: ac_simps)
  have gh: "0 < g * h" using g h by simp
  have "gcd ((g * h) * (a' * d')) ((g * h) * (c' * b')) = \<bar>g * h\<bar> * gcd (a' * d') (c' * b')"
    by (rule gcd_mult_distrib_int [symmetric])
  then have "gcd (a * d) (c * b) = (g * h) * gcd (a' * d') (c' * b')"
    using gh by (simp only: 1 abs_of_pos)
  then have "Fract (gcd (a * d) (c * b)) (b * d) =
      Fract ((g * h) * gcd (a' * d') (c' * b')) ((g * h) * (b' * d'))"
    by (simp only: 1(3))
  also have "\<dots> = Fract (gcd (a' * d') (c' * b')) (b' * d')"
    using g h by (intro mult_rat_cancel) simp
  finally have "Fract (gcd (a * d) (c * b)) (b * d) = Fract (gcd (a' * d') (c' * b')) (b' * d')" .
  then show ?thesis by (simp add: gcd_rat_def q)
qed

lemma gcd_rat_quotients:
  assumes "quotient_of x = (a, b)" "quotient_of y = (c, d)"
  shows "gcd_rat x y = Fract (gcd (a * d) (c * b)) (b * d)" "0 < b * d"
  using assms quotient_of_denom_pos [OF assms(1)] quotient_of_denom_pos [OF assms(2)]
  by (simp_all add: gcd_rat_def)

lemma gcd_rat_nonneg: "0 \<le> gcd_rat x y"
proof -
  obtain a b where qx: "quotient_of x = (a, b)" by (cases "quotient_of x") auto
  obtain c d where qy: "quotient_of y = (c, d)" by (cases "quotient_of y") auto
  show ?thesis using gcd_rat_quotients [OF qx qy] by (simp add: zero_le_Fract_iff)
qed

lemma gcd_rat_eq_0_iff: "(gcd_rat x y = 0) = (x = 0 \<and> y = 0)"
proof -
  obtain a b where qx: "quotient_of x = (a, b)" by (cases "quotient_of x") auto
  obtain c d where qy: "quotient_of y = (c, d)" by (cases "quotient_of y") auto
  note x = rat_as_Fract [OF qx] and y = rat_as_Fract [OF qy]
  have "(gcd_rat x y = 0) = (gcd (a * d) (c * b) = 0)"
    using gcd_rat_quotients [OF qx qy] x(2) y(2) by (simp add: Fract_of_int_quotient)
  also have "\<dots> = (a = 0 \<and> c = 0)" using x(2) y(2) by auto
  finally show ?thesis using x(3) y(3) by simp
qed

lemma gcd_rat_zero_right: "gcd_rat x 0 = \<bar>x\<bar>"
proof -
  obtain a b where qx: "quotient_of x = (a, b)" by (cases "quotient_of x") auto
  note x = rat_as_Fract [OF qx]
  have "gcd_rat x 0 = Fract \<bar>a\<bar> b" by (simp add: gcd_rat_def qx)
  also have "\<dots> = \<bar>Fract a b\<bar>" using x(2) by simp
  finally show ?thesis using x(1) by simp
qed

lemma gcd_rat_mult:
  assumes "0 < k"
  shows "gcd_rat (k * x) (k * y) = k * gcd_rat x y"
proof -
  obtain a b where qx: "quotient_of x = (a, b)" by (cases "quotient_of x") auto
  obtain c d where qy: "quotient_of y = (c, d)" by (cases "quotient_of y") auto
  obtain u v where qk: "quotient_of k = (u, v)" by (cases "quotient_of k") auto
  note x = rat_as_Fract [OF qx] and y = rat_as_Fract [OF qy] and k = rat_as_Fract [OF qk]
  have u: "0 < u" using assms k(1,2) by (simp add: zero_less_Fract_iff)
  have kx: "k * x = Fract (u * a) (v * b)" and ky: "k * y = Fract (u * c) (v * d)"
    by (subst k(1), subst x(1), simp) (subst k(1), subst y(1), simp)
  have 1: "gcd_rat (k * x) (k * y) =
      Fract (gcd (u * a * (v * d)) (u * c * (v * b))) (v * b * (v * d))"
    unfolding kx ky using k(2) x(2) y(2) by (intro gcd_rat_Fract) simp_all
  have uv: "0 < u * v" using u k(2) by simp
  have e1: "u * a * (v * d) = (u * v) * (a * d)" and e2: "u * c * (v * b) = (u * v) * (c * b)"
    by (simp_all only: ac_simps)
  have "gcd (u * a * (v * d)) (u * c * (v * b)) = gcd ((u * v) * (a * d)) ((u * v) * (c * b))"
    by (rule arg_cong2 [OF e1 e2])
  also have "\<dots> = \<bar>u * v\<bar> * gcd (a * d) (c * b)"
    by (rule gcd_mult_distrib_int [symmetric])
  also have "\<dots> = v * (u * gcd (a * d) (c * b))" using uv by (simp only: abs_of_pos ac_simps)
  finally have 2: "gcd (u * a * (v * d)) (u * c * (v * b)) = v * (u * gcd (a * d) (c * b))" .
  have 3: "v * b * (v * d) = v * (v * (b * d))" by (simp only: ac_simps)
  have "Fract (v * (u * gcd (a * d) (c * b))) (v * (v * (b * d))) =
      Fract (u * gcd (a * d) (c * b)) (v * (b * d))"
    using k(2) by (intro mult_rat_cancel) simp
  also have "\<dots> = Fract u v * Fract (gcd (a * d) (c * b)) (b * d)" by simp
  finally have "gcd_rat (k * x) (k * y) = Fract u v * Fract (gcd (a * d) (c * b)) (b * d)"
    unfolding 1 2 3 .
  then show ?thesis using gcd_rat_quotients(1) [OF qx qy] k(1) by simp
qed

lemma valuation_gcd_rat:
  assumes "is_prime p" "x \<noteq> 0" "y \<noteq> 0"
  shows "valuation p (gcd_rat x y) = min (valuation p x) (valuation p y)"
proof -
  obtain a b where qx: "quotient_of x = (a, b)" by (cases "quotient_of x") auto
  obtain c d where qy: "quotient_of y = (c, d)" by (cases "quotient_of y") auto
  note x = rat_as_Fract [OF qx] and y = rat_as_Fract [OF qy]
  have p: "2 \<le> p" using assms(1) by (simp add: is_prime_def)
  have a: "a \<noteq> 0" and c: "c \<noteq> 0" using x(3) y(3) assms(2,3) by simp_all
  define A B C D where "A = nat \<bar>a\<bar>" and "B = nat b" and "C = nat \<bar>c\<bar>" and "D = nat d"
  have pos: "0 < A" "0 < B" "0 < C" "0 < D" using a c x(2) y(2) by (simp_all add: A_def B_def C_def D_def)
  have vx: "valuation p x = int (multiplicity p A) - int (multiplicity p B)"
    by (simp add: valuation_def qx A_def B_def)
  have vy: "valuation p y = int (multiplicity p C) - int (multiplicity p D)"
    by (simp add: valuation_def qy C_def D_def)
  have g: "gcd (a * d) (c * b) \<noteq> 0" using a x(2) y(2) by simp
  have ad: "nat \<bar>a * d\<bar> = A * D" using y(2) by (simp add: nat_abs_mult A_def D_def)
  have cb: "nat \<bar>c * b\<bar> = C * B" using x(2) by (simp add: nat_abs_mult C_def B_def)
  have bd: "nat (b * d) = B * D" using x(2) y(2) by (simp add: nat_mult_distrib B_def D_def)
  have "gcd (a * d) (c * b) = int (gcd (nat \<bar>a * d\<bar>) (nat \<bar>c * b\<bar>))" by (rule gcd_int_def)
  then have "nat \<bar>gcd (a * d) (c * b)\<bar> = gcd (A * D) (C * B)" by (simp only: ad cb abs_of_nat nat_int)
  then have "multiplicity p (nat \<bar>gcd (a * d) (c * b)\<bar>) =
      min (multiplicity p (A * D)) (multiplicity p (C * B))"
    using multiplicity_gcd [OF p, of "A * D" "C * B"] pos by simp
  then have 1: "multiplicity p (nat \<bar>gcd (a * d) (c * b)\<bar>) =
      min (multiplicity p A + multiplicity p D) (multiplicity p C + multiplicity p B)"
    by (simp only: multiplicity_mult [OF assms(1) pos(1) pos(4)]
          multiplicity_mult [OF assms(1) pos(3) pos(2)])
  have 2: "multiplicity p (nat (b * d)) = multiplicity p B + multiplicity p D"
    by (simp only: bd multiplicity_mult [OF assms(1) pos(2) pos(4)])
  have "valuation p (gcd_rat x y) =
      int (multiplicity p (nat \<bar>gcd (a * d) (c * b)\<bar>)) - int (multiplicity p (nat (b * d)))"
    unfolding gcd_rat_quotients(1) [OF qx qy]
    using assms(1) g gcd_rat_quotients(2) [OF qx qy] by (rule valuation_Fract)
  then have "valuation p (gcd_rat x y) =
      int (min (multiplicity p A + multiplicity p D) (multiplicity p C + multiplicity p B))
        - int (multiplicity p B + multiplicity p D)"
    by (simp only: 1 2)
  then show ?thesis unfolding vx vy by linarith
qed

lemma fold_gcd_rat_mult:
  assumes "0 < k"
  shows "fold gcd_rat (map (\<lambda>x. k * x) xs) (k * a) = k * fold gcd_rat xs a"
proof (induction xs arbitrary: a)
  case Nil
  show ?case by simp
next
  case (Cons x xs)
  have "fold gcd_rat (map (\<lambda>x. k * x) (x # xs)) (k * a) =
      fold gcd_rat (map (\<lambda>x. k * x) xs) (gcd_rat (k * x) (k * a))" by simp
  also have "\<dots> = fold gcd_rat (map (\<lambda>x. k * x) xs) (k * gcd_rat x a)"
    by (simp only: gcd_rat_mult [OF assms])
  also have "\<dots> = k * fold gcd_rat xs (gcd_rat x a)" by (rule Cons.IH)
  finally show ?case by simp
qed

lemma fold_gcd_rat_nonneg: "0 \<le> a \<Longrightarrow> 0 \<le> fold gcd_rat xs a"
  by (induction xs arbitrary: a) (simp_all add: gcd_rat_nonneg)

lemma gcd_QQ_nonneg: "0 \<le> gcd_QQ xs"
  unfolding gcd_QQ_def by (rule fold_gcd_rat_nonneg) simp

lemma gcd_QQ_divided:
  assumes "gcd_QQ cs \<noteq> 0"
  shows "gcd_QQ (map (\<lambda>c. c / gcd_QQ cs) cs) = 1"
proof -
  define k where "k = inverse (gcd_QQ cs)"
  have k: "0 < k" using assms gcd_QQ_nonneg [of cs] by (simp add: k_def)
  have "map (\<lambda>c. c / gcd_QQ cs) cs = map (\<lambda>x. k * x) cs"
    by (simp add: k_def divide_inverse mult.commute)
  then have "gcd_QQ (map (\<lambda>c. c / gcd_QQ cs) cs) = gcd_QQ (map (\<lambda>x. k * x) cs)"
    by (rule arg_cong)
  also have "\<dots> = fold gcd_rat (map (\<lambda>x. k * x) cs) (k * 0)"
    by (simp add: gcd_QQ_def)
  also have "\<dots> = k * fold gcd_rat cs 0" by (rule fold_gcd_rat_mult [OF k])
  also have "\<dots> = 1" using assms by (simp add: k_def gcd_QQ_def)
  finally show ?thesis .
qed

lemma map_raising_div_K:
  assumes "map_raising (\<lambda>i. div_K (f i) g) js = Inr r" "js \<noteq> []"
  shows "g \<noteq> 0 \<and> r = map (\<lambda>i. f i / g) js"
proof -
  have g: "g \<noteq> 0"
  proof
    assume "g = 0"
    then have "map_raising (\<lambda>i. div_K (f i) g) js = Inl ZeroDivisionError"
      using assms(2) by (cases js) (simp_all add: div_K_def)
    with assms(1) show False by simp
  qed
  then have "map_raising (\<lambda>i. div_K (f i) g) js = Inr (map (\<lambda>i. f i / g) js)"
    by (intro map_raising_total) (simp add: div_K_def)
  with assms(1) g show ?thesis by simp
qed

lemma and_then_Inr:
  "and_then m f = Inr r \<Longrightarrow> \<exists>v. m = Inr v \<and> f v = Inr r"
  by (cases m) simp_all

lemma return_coeffs_coprime:
  assumes "return_coeffs QQ ''coprime'' coeffs = Inr cs" "length coeffs = 6"
  shows "gcd_QQ cs = 1"
proof -
  have m: "map_raising (\<lambda>i. div_K (coeffs ! i) (gcd_QQ coeffs)) [0..<6] = Inr cs"
    using assms(1) by (simp add: return_coeffs_def QQ_def del: upt_Suc)
  have "[0..<6] \<noteq> ([]::nat list)" by simp
  from map_raising_div_K [OF m this]
  have g: "gcd_QQ coeffs \<noteq> 0" and cs: "cs = map (\<lambda>i. coeffs ! i / gcd_QQ coeffs) [0..<6]"
    by simp_all
  have "map (\<lambda>i. coeffs ! i / gcd_QQ coeffs) [0..<length coeffs] = map (\<lambda>c. c / gcd_QQ coeffs) coeffs"
    by (rule nth_equalityI) simp_all
  with cs assms(2) have "cs = map (\<lambda>c. c / gcd_QQ coeffs) coeffs" by simp
  with gcd_QQ_divided [OF g] show ?thesis by simp
qed

lemma length_signed_binomial_coeffs: "length (signed_binomial_coeffs scale a) = 6"
  by (simp add: signed_binomial_coeffs_def)

lemma quintic_tail_coprime:
  assumes "quintic_tail QQ ''coprime'' i2 i3 A B R scale D Delta a1 B0 B1 C0 C1 = Inr cs"
  shows "gcd_QQ cs = 1"
  using assms unfolding quintic_tail_def Let_def
  by (auto dest!: and_then_Inr
           intro: return_coeffs_coprime [OF _ length_signed_binomial_coeffs])

lemma alpha_gamma_coprime:
  "alpha_gamma QQ ''coprime'' i2 A B C N R scale = Inr cs \<Longrightarrow> gcd_QQ cs = 1"
  unfolding alpha_gamma_def Let_def
  by (auto dest!: and_then_Inr dest: quintic_tail_coprime)

lemma alpha_beta_coprime:
  "alpha_beta QQ ''coprime'' i2 A B M N R scale = Inr cs \<Longrightarrow> gcd_QQ cs = 1"
  unfolding alpha_beta_def Let_def
  by (auto dest!: and_then_Inr dest: quintic_tail_coprime)

lemma special_gcds:
  "gcd_QQ [1, 0, 0, 0, 0, 1] = 1" "gcd_QQ [0, 1, 0, 0, 1, 0] = 1" "gcd_QQ [1, 0, 0, 0, 1, 0] = 1"
  "gcd_QQ [1, 0, 10, 0, - 15, 0] = 1" "gcd_QQ [1, 0, 0, 1, 0, 0] = 1"
  by code_simp+

lemma quintic_cases_coprime:
  assumes "quintic_cases QQ ''coprime'' i2 v = Inr cs"
  shows "gcd_QQ cs = 1"
proof -
  obtain A B C M N R where v: "v = (A, B, C, M, N, R)" by (cases v) auto
  show ?thesis
    using assms unfolding v quintic_cases_def
    by (auto simp: special_gcds split: if_splits dest!: and_then_Inr
             dest: alpha_gamma_coprime alpha_beta_coprime)
qed

subsection \<open>The reduction of rational invariants\<close>

lemma factor_QQ_nonzero: "q \<noteq> 0 \<Longrightarrow> factor QQ q = Inr (prime_powers q)"
  by (simp add: QQ_def factor_QQ_def prime_powers_def prime_divisors_def split: prod.splits)

lemma prime_divisors_prime: "p \<in> set (prime_divisors q) \<Longrightarrow> is_prime p"
  by (auto simp: prime_divisors_def split: prod.splits)

lemma distinct_prime_divisors: "distinct (prime_divisors q)"
  by (auto simp: prime_divisors_def split: prod.splits)

lemma multiplicity_positive_le:
  assumes "multiplicity p n \<noteq> 0" "0 < n"
  shows "p \<le> n"
proof -
  have "p dvd n"
  proof (rule ccontr)
    assume "\<not> p dvd n"
    then have "multiplicity p n = 0" by (rule multiplicity_not_dvd)
    with assms(1) show False by simp
  qed
  then show ?thesis using assms(2) by (rule dvd_imp_le)
qed

lemma mem_prime_divisors:
  assumes "is_prime p" "q \<noteq> 0"
  shows "(p \<in> set (prime_divisors q)) = (valuation p q \<noteq> 0)"
proof -
  obtain a b where qq: "quotient_of q = (a, b)" by (cases "quotient_of q") auto
  note r = rat_as_Fract [OF qq]
  have a: "0 < nat \<bar>a\<bar>" and b: "0 < nat b" using r(2,3) assms(2) by simp_all
  have p: "2 \<le> p" using assms(1) by (simp add: is_prime_def)
  have "p \<le> max (nat \<bar>a\<bar>) (nat b)" if "valuation p q \<noteq> 0"
  proof -
    from that have "multiplicity p (nat \<bar>a\<bar>) \<noteq> 0 \<or> multiplicity p (nat b) \<noteq> 0"
      by (auto simp: valuation_def qq)
    then show ?thesis
    proof
      assume "multiplicity p (nat \<bar>a\<bar>) \<noteq> 0"
      then have "p \<le> nat \<bar>a\<bar>" using a by (rule multiplicity_positive_le)
      then show ?thesis by simp
    next
      assume "multiplicity p (nat b) \<noteq> 0"
      then have "p \<le> nat b" using b by (rule multiplicity_positive_le)
      then show ?thesis by simp
    qed
  qed
  then show ?thesis using assms(1) p by (auto simp: prime_divisors_def qq)
qed

lemma map_of_of_nat:
  "map_of (map (\<lambda>p. (of_nat p :: rat, f p)) ps) (of_nat q) =
     (if q \<in> set ps then Some (f q) else None)"
  by (induction ps) auto

lemma exponent_in_prime_powers:
  assumes "is_prime p" "q \<noteq> 0"
  shows "exponent_in (prime_powers q) (of_nat p) = valuation p q"
  using mem_prime_divisors [OF assms]
  by (auto simp: exponent_in_def prime_powers_def map_of_of_nat)

lemma weighted_exponents_QQ:
  assumes "length xs = length ws" "\<forall>x \<in> set xs. x \<noteq> 0" "\<forall>w \<in> set ws. 0 < w" "is_prime p"
  shows "weighted_exponents (map prime_powers xs) ws (of_nat p) =
           Inr (map (\<lambda>i. valuation p (xs ! i) div ws ! i) [0..<length ws])"
  unfolding weighted_exponents_def
proof (rule map_raising_total)
  fix i assume "i \<in> set [0..<length ws]"
  then have i: "i < length ws" by simp
  then have "ws ! i \<noteq> 0" using assms(3) nth_mem by fastforce
  moreover have "xs ! i \<noteq> 0" using assms(1,2) i nth_mem by fastforce
  ultimately show "(if i < length (map prime_powers xs) then
        if ws ! i = 0 then Inl ZeroDivisionError
        else Inr (exponent_in (map prime_powers xs ! i) (of_nat p) div ws ! i)
      else Inl IndexError) = Inr (valuation p (xs ! i) div ws ! i)"
    using i assms(1,4) by (simp add: exponent_in_prime_powers)
qed

lemma pow_K_powi: "x \<noteq> 0 \<Longrightarrow> pow_K x n = Inr (x powi n)"
  by (simp add: pow_K_def inv_K_def power_int_def power_inverse)

lemma reduce_step_QQ:
  assumes "length xs = length ws" "\<forall>x \<in> set xs. x \<noteq> 0" "\<forall>w \<in> set ws. 0 < w" "is_prime p"
    and "ws \<noteq> []"
  shows "reduce_step (map prime_powers xs) ws (of_nat p) s =
           Inr (s * of_nat p powi weighted_exponent xs ws p)"
proof -
  have p: "(of_nat p :: rat) \<noteq> 0" using assms(4) by (simp add: is_prime_def)
  have ne: "map (\<lambda>i. valuation p (xs ! i) div ws ! i) [0..<length ws] \<noteq> []"
    using assms(5) by simp
  show ?thesis
    unfolding reduce_step_def weighted_exponents_QQ [OF assms(1-4)]
    using ne by (simp add: pow_K_powi [OF p] weighted_exponent_def del: upt_Suc set_upt)
qed

lemma reduce_loop_QQ:
  assumes "length xs = length ws" "\<forall>x \<in> set xs. x \<noteq> 0" "\<forall>w \<in> set ws. 0 < w" "ws \<noteq> []"
    and "\<forall>p \<in> set qs. is_prime p"
  shows "reduce_loop (map prime_powers xs) ws (map (\<lambda>p. (of_nat p, e p)) qs) s =
           Inr (s * prod_list (map (\<lambda>p. of_nat p powi weighted_exponent xs ws p) qs))"
  using assms(5)
proof (induction qs arbitrary: s)
  case Nil
  show ?case by simp
next
  case (Cons q qs)
  then have q: "is_prime q" and qs: "\<forall>p \<in> set qs. is_prime p" by simp_all
  show ?case
    using reduce_step_QQ [OF assms(1-3) q assms(4)] Cons.IH [OF qs]
    by (simp add: mult.assoc)
qed

lemma fold_gcd_rat_nonzero: "a \<noteq> 0 \<Longrightarrow> fold gcd_rat xs a \<noteq> 0"
  by (induction xs arbitrary: a) (simp_all add: gcd_rat_eq_0_iff)

lemma gcd_QQ_nonzero:
  assumes "xs \<noteq> []" "\<forall>x \<in> set xs. x \<noteq> 0"
  shows "gcd_QQ xs \<noteq> 0"
proof -
  obtain y ys where xs: "xs = y # ys" using assms(1) by (cases xs) auto
  have "gcd_rat y 0 \<noteq> 0" using assms(2) xs by (simp add: gcd_rat_eq_0_iff)
  then show ?thesis unfolding gcd_QQ_def xs by (simp add: fold_gcd_rat_nonzero)
qed

lemma common_scalar_nonzero: "common_scalar xs ws \<noteq> 0"
proof -
  have "\<And>ps f. \<forall>p \<in> set ps. is_prime p \<Longrightarrow>
      prod_list (map (\<lambda>p. (of_nat p :: rat) powi f p) ps) \<noteq> 0"
  proof -
    fix ps :: "nat list" and f
    assume "\<forall>p \<in> set ps. is_prime p"
    then show "prod_list (map (\<lambda>p. (of_nat p :: rat) powi f p) ps) \<noteq> 0"
      by (induction ps) (auto simp: is_prime_def)
  qed
  then show ?thesis unfolding common_scalar_def using prime_divisors_prime by blast
qed

lemma reduce_invariants_QQ:
  assumes "xs \<noteq> []" "length ws = length xs" "\<forall>x \<in> set xs. x \<noteq> 0" "\<forall>w \<in> set ws. 0 < w"
  shows "reduce_invariants QQ xs ws = Inr (reduce_invariants_spec xs ws)"
proof -
  have l: "length xs = length ws" using assms(2) by simp
  have ws: "ws \<noteq> []" using assms(1,2) by auto
  have f: "map_raising (factor QQ) xs = Inr (map prime_powers xs)"
    by (rule map_raising_total) (simp add: factor_QQ_nonzero assms(3))
  have gq: "gcd_of QQ xs = gcd_QQ xs" by (simp add: QQ_def)
  have g: "factor QQ (gcd_of QQ xs) = Inr (prime_powers (gcd_QQ xs))"
    unfolding gq using gcd_QQ_nonzero [OF assms(1,3)] by (rule factor_QQ_nonzero)
  have loop: "reduce_loop (map prime_powers xs) ws (prime_powers (gcd_QQ xs)) 1 =
      Inr (common_scalar xs ws)"
    unfolding prime_powers_def [of "gcd_QQ xs"] common_scalar_def
    using reduce_loop_QQ [OF l assms(3,4) ws, of "prime_divisors (gcd_QQ xs)" _ 1]
      prime_divisors_prime by simp
  have fin: "map_raising (\<lambda>i. if i < length xs then
        and_then (pow_K (common_scalar xs ws) (- (ws ! i))) (\<lambda>s. Inr (xs ! i * s))
      else Inl IndexError) [0..<length ws] = Inr (reduce_invariants_spec xs ws)"
    unfolding reduce_invariants_spec_def
    by (rule map_raising_total) (simp add: l pow_K_powi [OF common_scalar_nonzero])
  show ?thesis
    unfolding reduce_invariants_def f g by (simp add: loop fin)
qed

lemma valuation_powi:
  assumes "is_prime q" "x \<noteq> 0"
  shows "valuation q (x powi n) = n * valuation q x"
proof (cases "0 \<le> n")
  case True
  then show ?thesis using valuation_power [OF assms, of "nat n"] by (simp add: power_int_def)
next
  case False
  have "valuation q (inverse x ^ nat (- n)) = int (nat (- n)) * valuation q (inverse x)"
    using assms by (intro valuation_power) simp_all
  then show ?thesis
    using False valuation_inverse [OF assms] by (simp add: power_int_def)
qed

lemma valuation_prod_primes:
  assumes "is_prime q" "distinct qs" "\<forall>p \<in> set qs. is_prime p"
  shows "prod_list (map (\<lambda>p. (of_nat p :: rat) powi e p) qs) \<noteq> 0
       \<and> valuation q (prod_list (map (\<lambda>p. (of_nat p :: rat) powi e p) qs)) =
           (if q \<in> set qs then e q else 0)"
  using assms(2,3)
proof (induction qs)
  case Nil
  show ?case by (simp add: valuation_one)
next
  case (Cons p ps)
  let ?P = "prod_list (map (\<lambda>p. (of_nat p :: rat) powi e p) ps)"
  from Cons have ih: "?P \<noteq> 0" "valuation q ?P = (if q \<in> set ps then e q else 0)"
    and p: "is_prime p" and np: "p \<notin> set ps" by simp_all
  have p0: "(of_nat p :: rat) \<noteq> 0" using p by (simp add: is_prime_def)
  then have pe: "(of_nat p :: rat) powi e p \<noteq> 0" by simp
  have "valuation q ((of_nat p :: rat) powi e p) = e p * valuation q (of_nat p)"
    using assms(1) p0 by (rule valuation_powi)
  also have "\<dots> = (if q = p then e p else 0)"
    using valuation_of_nat [OF assms(1) p] by simp
  finally have v: "valuation q ((of_nat p :: rat) powi e p) = (if q = p then e p else 0)" .
  have "valuation q ((of_nat p :: rat) powi e p * ?P) =
      valuation q ((of_nat p :: rat) powi e p) + valuation q ?P"
    using assms(1) pe ih(1) by (rule valuation_mult)
  then show ?case using v ih np pe by auto
qed

lemma fold_gcd_rat_valuation:
  assumes "is_prime p" "a \<noteq> 0" "\<forall>x \<in> set xs. x \<noteq> 0"
  shows "valuation p (fold gcd_rat xs a) \<le> valuation p a
       \<and> (\<forall>x \<in> set xs. valuation p (fold gcd_rat xs a) \<le> valuation p x)
       \<and> (valuation p (fold gcd_rat xs a) = valuation p a
            \<or> (\<exists>x \<in> set xs. valuation p (fold gcd_rat xs a) = valuation p x))"
  using assms(2,3)
proof (induction xs arbitrary: a)
  case Nil
  show ?case by simp
next
  case (Cons x xs)
  let ?a = "gcd_rat x a"
  let ?g = "fold gcd_rat xs ?a"
  from Cons.prems have x: "x \<noteq> 0" and xs: "\<forall>x \<in> set xs. x \<noteq> 0" by simp_all
  have a': "?a \<noteq> 0" using x by (simp add: gcd_rat_eq_0_iff)
  have va: "valuation p ?a = min (valuation p x) (valuation p a)"
    using assms(1) x Cons.prems(1) by (rule valuation_gcd_rat)
  from Cons.IH [OF a' xs]
  have 1: "valuation p ?g \<le> valuation p ?a"
    and 2: "\<forall>y \<in> set xs. valuation p ?g \<le> valuation p y"
    and 3: "valuation p ?g = valuation p ?a \<or> (\<exists>y \<in> set xs. valuation p ?g = valuation p y)"
    by simp_all
  have "valuation p ?g \<le> valuation p a" "valuation p ?g \<le> valuation p x"
    using 1 va by simp_all
  moreover have "valuation p ?g = valuation p a \<or> valuation p ?g = valuation p x
      \<or> (\<exists>y \<in> set xs. valuation p ?g = valuation p y)"
    using 3 va by (cases "valuation p x \<le> valuation p a") (auto simp: min_def)
  ultimately show ?case using 2 by auto
qed

lemma gcd_QQ_valuation:
  assumes "is_prime p" "xs \<noteq> []" "\<forall>x \<in> set xs. x \<noteq> 0"
  shows "(\<forall>x \<in> set xs. valuation p (gcd_QQ xs) \<le> valuation p x)
       \<and> (\<exists>x \<in> set xs. valuation p (gcd_QQ xs) = valuation p x)"
proof -
  obtain y ys where xs: "xs = y # ys" using assms(2) by (cases xs) auto
  have y: "\<bar>y\<bar> \<noteq> 0" and ys: "\<forall>x \<in> set ys. x \<noteq> 0" using assms(3) xs by simp_all
  have g: "gcd_QQ (y # ys) = fold gcd_rat ys \<bar>y\<bar>"
    by (simp add: gcd_QQ_def gcd_rat_zero_right)
  show ?thesis
    using fold_gcd_rat_valuation [OF assms(1) y ys]
    unfolding xs g valuation_abs by auto
qed

lemma weighted_exponent_le:
  assumes "i < length ws"
  shows "weighted_exponent xs ws p \<le> valuation p (xs ! i) div ws ! i"
  unfolding weighted_exponent_def using assms by (intro Min_le) auto

lemma weighted_exponent_eqI:
  assumes "\<And>i. i < length ws \<Longrightarrow> c \<le> valuation p (xs ! i) div ws ! i"
    and "i < length ws" "valuation p (xs ! i) div ws ! i = c"
  shows "weighted_exponent xs ws p = c"
  unfolding weighted_exponent_def
proof (rule Min_eqI)
  show "finite (set (map (\<lambda>i. valuation p (xs ! i) div ws ! i) [0..<length ws]))" by simp
  show "c \<le> y" if "y \<in> set (map (\<lambda>i. valuation p (xs ! i) div ws ! i) [0..<length ws])" for y
    using that assms(1) by auto
  show "c \<in> set (map (\<lambda>i. valuation p (xs ! i) div ws ! i) [0..<length ws])"
    using assms(2,3) by auto
qed

lemma weighted_exponent_attained:
  assumes "ws \<noteq> []"
  shows "\<exists>i < length ws. weighted_exponent xs ws p = valuation p (xs ! i) div ws ! i"
proof -
  let ?S = "set (map (\<lambda>i. valuation p (xs ! i) div ws ! i) [0..<length ws])"
  have "?S \<noteq> {}" using assms by simp
  then have "Min ?S \<in> ?S" by (intro Min_in) simp
  then show ?thesis unfolding weighted_exponent_def by auto
qed

lemma weighted_exponent_outside_gcd:
  assumes "is_prime p" "xs \<noteq> []" "length ws = length xs" "\<forall>x \<in> set xs. x \<noteq> 0"
    and "\<forall>w \<in> set ws. 0 < w" "valuation p (gcd_QQ xs) = 0"
  shows "weighted_exponent xs ws p = 0"
proof -
  from gcd_QQ_valuation [OF assms(1,2,4)] assms(6)
  have all: "\<forall>x \<in> set xs. 0 \<le> valuation p x" and ex: "\<exists>x \<in> set xs. valuation p x = 0"
    by auto
  from ex obtain i where i: "i < length xs" "valuation p (xs ! i) = 0"
    by (auto simp: in_set_conv_nth)
  show ?thesis
  proof (rule weighted_exponent_eqI)
    fix j assume j: "j < length ws"
    then have "0 < ws ! j" using assms(5) nth_mem by fastforce
    moreover have "0 \<le> valuation p (xs ! j)" using all j assms(3) nth_mem by fastforce
    ultimately show "0 \<le> valuation p (xs ! j) div ws ! j" by (simp add: pos_imp_zdiv_nonneg_iff)
  next
    show "i < length ws" using i(1) assms(3) by simp
    show "valuation p (xs ! i) div ws ! i = 0" using i(2) by simp
  qed
qed

lemma valuation_common_scalar:
  assumes "is_prime p" "xs \<noteq> []" "length ws = length xs" "\<forall>x \<in> set xs. x \<noteq> 0"
    and "\<forall>w \<in> set ws. 0 < w"
  shows "valuation p (common_scalar xs ws) = weighted_exponent xs ws p"
proof -
  have g: "gcd_QQ xs \<noteq> 0" using assms(2,4) by (rule gcd_QQ_nonzero)
  have pr: "\<forall>q \<in> set (prime_divisors (gcd_QQ xs)). is_prime q"
    using prime_divisors_prime by blast
  have "valuation p (common_scalar xs ws) =
      (if p \<in> set (prime_divisors (gcd_QQ xs)) then weighted_exponent xs ws p else 0)"
    unfolding common_scalar_def
    using valuation_prod_primes [OF assms(1) distinct_prime_divisors pr] by blast
  then show ?thesis
    using mem_prime_divisors [OF assms(1) g] weighted_exponent_outside_gcd [OF assms]
    by auto
qed

lemma reduce_invariants_spec_nth:
  assumes "i < length ws"
  shows "reduce_invariants_spec xs ws ! i = xs ! i * common_scalar xs ws powi (- (ws ! i))"
  using assms by (simp add: reduce_invariants_spec_def)

lemma length_reduce_invariants_spec: "length (reduce_invariants_spec xs ws) = length ws"
  by (simp add: reduce_invariants_spec_def)

lemma reduce_invariants_spec_nonzero:
  assumes "length ws = length xs" "\<forall>x \<in> set xs. x \<noteq> 0"
  shows "\<forall>y \<in> set (reduce_invariants_spec xs ws). y \<noteq> 0"
proof
  fix y assume "y \<in> set (reduce_invariants_spec xs ws)"
  then obtain i where i: "i < length ws" "y = reduce_invariants_spec xs ws ! i"
    by (auto simp: in_set_conv_nth length_reduce_invariants_spec)
  have "xs ! i \<noteq> 0" using i(1) assms nth_mem by fastforce
  then show "y \<noteq> 0"
    using i common_scalar_nonzero [of xs ws] by (simp add: reduce_invariants_spec_nth)
qed

lemma valuation_reduce_invariants_spec:
  assumes "is_prime p" "xs \<noteq> []" "length ws = length xs" "\<forall>x \<in> set xs. x \<noteq> 0"
    and "\<forall>w \<in> set ws. 0 < w" "i < length ws"
  shows "valuation p (reduce_invariants_spec xs ws ! i) =
           valuation p (xs ! i) - ws ! i * weighted_exponent xs ws p"
proof -
  have x: "xs ! i \<noteq> 0" using assms(3,4,6) nth_mem by fastforce
  have s: "common_scalar xs ws powi (- (ws ! i)) \<noteq> 0"
    using common_scalar_nonzero [of xs ws] by simp
  have "valuation p (reduce_invariants_spec xs ws ! i) =
      valuation p (xs ! i) + valuation p (common_scalar xs ws powi (- (ws ! i)))"
    unfolding reduce_invariants_spec_nth [OF assms(6)] using assms(1) x s by (rule valuation_mult)
  also have "valuation p (common_scalar xs ws powi (- (ws ! i))) =
      (- (ws ! i)) * valuation p (common_scalar xs ws)"
    using assms(1) common_scalar_nonzero by (rule valuation_powi)
  finally show ?thesis using valuation_common_scalar [OF assms(1-5)] by simp
qed

lemma weighted_exponent_reduced:
  assumes "is_prime p" "xs \<noteq> []" "length ws = length xs" "\<forall>x \<in> set xs. x \<noteq> 0"
    and "\<forall>w \<in> set ws. 0 < w"
  shows "weighted_exponent (reduce_invariants_spec xs ws) ws p = 0"
proof -
  let ?E = "weighted_exponent xs ws p"
  have ws: "ws \<noteq> []" using assms(2,3) by auto
  have d: "valuation p (reduce_invariants_spec xs ws ! i) div ws ! i =
      valuation p (xs ! i) div ws ! i - ?E" if "i < length ws" for i
  proof -
    have w: "ws ! i \<noteq> 0" using that assms(5) nth_mem by fastforce
    have "(valuation p (xs ! i) + ws ! i * (- ?E)) div ws ! i =
        - ?E + valuation p (xs ! i) div ws ! i"
      using w by (rule div_mult_self2)
    then show ?thesis using valuation_reduce_invariants_spec [OF assms that] by simp
  qed
  obtain k where k: "k < length ws" "?E = valuation p (xs ! k) div ws ! k"
    using weighted_exponent_attained [OF ws] by blast
  show ?thesis
  proof (rule weighted_exponent_eqI)
    fix i assume i: "i < length ws"
    show "0 \<le> valuation p (reduce_invariants_spec xs ws ! i) div ws ! i"
      using d [OF i] weighted_exponent_le [OF i, of xs p] by simp
  next
    show "k < length ws" by (rule k(1))
    show "valuation p (reduce_invariants_spec xs ws ! k) div ws ! k = 0"
      using d [OF k(1)] k(2) by simp
  qed
qed

lemma prod_list_ones: "\<forall>x \<in> set xs. f x = (1::rat) \<Longrightarrow> prod_list (map f xs) = 1"
  by (induction xs) simp_all

lemma reduce_invariants_spec_idempotent:
  assumes "xs \<noteq> []" "length ws = length xs" "\<forall>x \<in> set xs. x \<noteq> 0" "\<forall>w \<in> set ws. 0 < w"
  shows "reduce_invariants_spec (reduce_invariants_spec xs ws) ws = reduce_invariants_spec xs ws"
proof -
  let ?ys = "reduce_invariants_spec xs ws"
  have "common_scalar ?ys ws = 1"
    unfolding common_scalar_def
  proof (rule prod_list_ones, rule ballI)
    fix p assume "p \<in> set (prime_divisors (gcd_QQ ?ys))"
    then have "is_prime p" by (rule prime_divisors_prime)
    then have "weighted_exponent ?ys ws p = 0" using assms by (rule weighted_exponent_reduced)
    then show "of_nat p powi weighted_exponent ?ys ws p = (1::rat)" by simp
  qed
  then have "reduce_invariants_spec ?ys ws = map (\<lambda>i. ?ys ! i) [0..<length ?ys]"
    by (simp add: reduce_invariants_spec_def [of ?ys] length_reduce_invariants_spec)
  then show ?thesis by (simp only: map_nth)
qed

lemma reduce_invariants_QQ_idempotent:
  assumes "xs \<noteq> []" "length ws = length xs" "\<forall>x \<in> set xs. x \<noteq> 0" "\<forall>w \<in> set ws. 0 < w"
  shows "reduce_invariants QQ (reduce_invariants_spec xs ws) ws = Inr (reduce_invariants_spec xs ws)"
proof -
  let ?ys = "reduce_invariants_spec xs ws"
  have 1: "?ys \<noteq> []" using assms(1,2) length_reduce_invariants_spec [of xs ws] by auto
  have 2: "length ws = length ?ys" by (simp add: length_reduce_invariants_spec)
  have 3: "\<forall>y \<in> set ?ys. y \<noteq> 0" using assms(2,3) by (rule reduce_invariants_spec_nonzero)
  show ?thesis
    using reduce_invariants_QQ [OF 1 2 3 assms(4)] reduce_invariants_spec_idempotent [OF assms]
    by simp
qed

subsection \<open>Four invariants under the weights 2, 4, 6, 9\<close>

lemma upt_4: "[0..<4] = [0, 1, 2, 3]"
  by (simp add: upt_rec)

lemma reduce_invariants_Inr:
  assumes "reduce_invariants K xs ws = Inr ys"
  shows "\<exists>s. map_raising (\<lambda>i. if i < length xs then
             and_then (pow_K s (- (ws ! i))) (\<lambda>u. Inr (xs ! i * u))
           else Inl IndexError) [0..<length ws] = Inr ys"
  using assms unfolding reduce_invariants_def
  by (auto simp: and_then_def split: sum.splits simp del: and_then_simps)

lemma reduce_four_invariants:
  assumes "reduce_invariants K [A, B, C, R] [2, 4, 6, 9] = Inr ys"
  shows "\<exists>t. t \<noteq> 0 \<and> ys = [A * t ^ 2, B * t ^ 4, C * t ^ 6, R * t ^ 9]"
proof -
  from reduce_invariants_Inr [OF assms] obtain s where
    m: "map_raising (\<lambda>i. if i < length [A, B, C, R] then
          and_then (pow_K s (- ([2, 4, 6, 9] ! i))) (\<lambda>u. Inr ([A, B, C, R] ! i * u))
        else Inl IndexError) [0..<length [2, 4, 6, 9 :: int]] = Inr ys"
    by blast
  have s: "s \<noteq> 0"
  proof
    assume "s = 0"
    with m show False by (simp add: upt_4 pow_K_def inv_K_def)
  qed
  then have "ys = [A * inverse (s ^ 2), B * inverse (s ^ 4), C * inverse (s ^ 6), R * inverse (s ^ 9)]"
    using m by (simp add: upt_4 pow_K_def inv_K_def)
  then have "ys = [A * inverse s ^ 2, B * inverse s ^ 4, C * inverse s ^ 6, R * inverse s ^ 9]"
    by (simp add: power_inverse)
  moreover have "inverse s \<noteq> 0" using s by simp
  ultimately show ?thesis by blast
qed

lemma invariant_R2_scaled:
  "invariant_R2 i2 (A * t ^ 2) (B * t ^ 4) (C * t ^ 6) = t ^ 18 * invariant_R2 i2 A B (C::'a::field)"
  unfolding invariant_R2_def invariant_M_def invariant_N_def Let_def
  by (simp add: algebra_simps power2_eq_square power4_eq_xxxx power_numeral_reduce)

lemma syzygy_scaled:
  assumes "(t::'a::field) \<noteq> 0"
  shows "((R * t ^ 9) ^ 2 = invariant_R2 i2 (A * t ^ 2) (B * t ^ 4) (C * t ^ 6))
           = (R ^ 2 = invariant_R2 i2 A B C)"
proof -
  have "(R * t ^ 9) ^ 2 = t ^ 18 * R ^ 2" by (simp add: power_mult_distrib flip: power_mult)
  then show ?thesis using assms by (simp add: invariant_R2_scaled)
qed

lemma coprime_input_four:
  assumes "coprime_input K scaling [A, B, C, R] = Inr ys"
  shows "\<exists>t. t \<noteq> 0 \<and> ys = [A * t ^ 2, B * t ^ 4, C * t ^ 6, R * t ^ 9]
            \<and> (scaling \<noteq> ''coprime'' \<longrightarrow> t = 1)"
proof (cases "scaling = ''coprime''")
  case True
  with assms have "reduce_invariants K [A, B, C, R] [2, 4, 6, 9] = Inr ys"
    by (simp add: coprime_input_def)
  from reduce_four_invariants [OF this] True show ?thesis by blast
next
  case False
  with assms have "ys = [A * 1 ^ 2, B * 1 ^ 4, C * 1 ^ 6, R * 1 ^ 9]"
    by (simp add: coprime_input_def)
  with False show ?thesis by (intro exI [of _ 1]) simp
qed

subsection \<open>The quintic of the invariants 3, 1, 2\<close>

text \<open>
  Claim C1. Over the rationals the invariants \<open>[3, 1, 2]\<close> have \<open>M = 0\<close>, \<open>N = 5/2\<close> and
  \<open>R2 = -75/8\<close>, which is no square: the invariants are rescaled by the powers of
  \<open>R2\<close> and \<open>R\<close> is \<open>R2^5\<close>. With the default options the function returns the six
  coefficients of the docstring.
\<close>

theorem binary_quintic_3_1_2:
  "clebsch_values QQ [3, 1, 2] ''clebsch'' ''none'' =
     Inr (1 / 2, (- 75 / 8) * 3, (- 75 / 8) ^ 2 * 1, (- 75 / 8) ^ 3 * 2,
          (- 75 / 8) ^ 3 * 0, (- 75 / 8) ^ 4 * (5 / 2), (- 75 / 8) ^ 5)
   \<and> binary_quintic_from_invariants QQ [3, 1, 2] ''clebsch'' ''none'' =
     Inr [- 66741943359375 / 2097152, - 125141143798828125 / 134217728, 0,
          52793920040130615234375 / 34359738368,
          19797720015048980712890625 / 1099511627776,
          - 4454487003386020660400390625 / 17592186044416]"
  by code_simp

subsection \<open>The number of invariants of a quintic\<close>

text \<open>
  Claim C2. The function ought to raise the \<^verbatim>\<open>ValueError\<close> that asks for 3 or 4
  invariants on every other number of them; the last branch of the choice of \<open>R\<close>,
  lines 408 to 410, is there for it. With two invariants it is not reached: the
  unpacking of \<open>A\<close>, \<open>B\<close>, \<open>C\<close> at line 382 raises first, with the interpreter's message.
\<close>

theorem two_invariants_unpack_error:
  "binary_quintic_from_invariants QQ [1, 2] ''clebsch'' ''none'' =
     Inl (ValueError ''need more than 2 values to unpack'')
   \<and> binary_quintic_from_invariants QQ [1, 2] ''clebsch'' ''none'' \<noteq>
     Inl (ValueError ''Incorrect number of invariants provided. This method requires 3 or 4 invariants.'')"
  by (simp add: binary_quintic_from_invariants_def clebsch_values_def coprime_input_def
                unpack_error_def digit_char_def)

text \<open>
  Five invariants or more do reach that branch, when the options are recognised and
  the characteristic is none of 2, 3, 5.
\<close>

theorem five_or_more_invariants_rejected:
  assumes "invariant_choice \<in> {''default'', ''clebsch''}"
    and "scaling \<in> {''none'', ''normalized'', ''coprime''}"
    and "has_characteristic K" and "characteristic K \<notin> {2, 3, 5}"
    and "5 \<le> length invariants"
  shows "binary_quintic_from_invariants K invariants invariant_choice scaling =
           Inl (ValueError ''Incorrect number of invariants provided. This method requires 3 or 4 invariants.'')"
proof -
  have two: "(2::'a) \<noteq> 0" using assms(3,4) by (rule two_nonzero)
  obtain A B C where t: "take 3 invariants = [A, B, C]" using take3 [OF assms(5)] by blast
  have c: "coprime_input K scaling invariants = Inr invariants"
    using assms(5) by (simp add: coprime_input_def)
  show ?thesis
    using assms(1,2,4,5) two t c
    by (simp add: binary_quintic_from_invariants_def clebsch_values_def syzygy_root_def
                  inv_K_def Let_def)
qed

theorem five_or_more_invariants_rejected_witness:
  "binary_quintic_from_invariants QQ [1, 2, 3, 4, 5] ''clebsch'' ''none'' =
     Inl (ValueError ''Incorrect number of invariants provided. This method requires 3 or 4 invariants.'')"
  using five_or_more_invariants_rejected [of "''clebsch''" "''none''" QQ "[1, 2, 3, 4, 5]"]
    QQ_has_characteristic
  by (simp add: QQ_def)

subsection \<open>Degrees without a reconstruction\<close>

text \<open>
  Claim C3. For the degree 6 the dispatcher raises \<^verbatim>\<open>NotImplementedError\<close>; the message
  that the code builds has the number alone where the docstring has \<open>degree 6\<close>.
\<close>

theorem binary_form_degree_6_message:
  "binary_form_from_invariants QQ 6 [1, 2, 3] True None None =
     Inl (NotImplementedError ''No reconstruction for binary forms of 6 implemented.'')"
  by code_simp

subsection \<open>The algorithm of \<^verbatim>\<open>reduce_invariants\<close>\<close>

text \<open>
  Claim C5. The invariants \<open>[6/5, 12, 16]\<close> of weights \<open>[1, 2, 3]\<close> reduce to
  \<open>[3, 75, 250]\<close>, and on every nonempty list of rationals other than 0 with as many
  positive weights the function returns what the algorithm of the specification
  gives: with \<open>e\<^sub>p\<close> the least floor of the multiplicity of \<open>p\<close> in an invariant divided
  by its weight, and the scalar the product of \<open>p ^ e\<^sub>p\<close> over the primes \<open>p\<close> of the gcd,
  the list of the \<open>invariants[i] * scalar ^ (- weights[i])\<close>.
\<close>

theorem reduce_invariants_algorithm:
  "reduce_invariants QQ [6 / 5, 12, 16] [1, 2, 3] = Inr [3, 75, 250]
   \<and> (invariants \<noteq> [] \<and> length weights = length invariants
        \<and> (\<forall>x \<in> set invariants. x \<noteq> 0) \<and> (\<forall>w \<in> set weights. 0 < w) \<longrightarrow>
      reduce_invariants QQ invariants weights = Inr (reduce_invariants_spec invariants weights))"
proof -
  have "reduce_invariants QQ [6 / 5, 12, 16] [1, 2, 3] = Inr [3, 75, 250]" by code_simp
  then show ?thesis using reduce_invariants_QQ [of invariants weights] by blast
qed

theorem reduce_invariants_algorithm_witness:
  "reduce_invariants QQ [4, 4, 4] [1, 2, 3] = Inr [4, 4, 4]
   \<and> weighted_exponent [4, 4, 4] [1, 2, 3] 2 = 0
   \<and> reduce_invariants QQ [8, 8, 8] [1, 2, 3] = Inr [4, 2, 1]
   \<and> weighted_exponent [8, 8, 8] [1, 2, 3] 2 = 1"
proof -
  have 1: "reduce_invariants_spec [4, 4, 4] [1, 2, 3] = [4, 4, 4]" by code_simp
  have 2: "reduce_invariants_spec [8, 8, 8] [1, 2, 3] = [4, 2, 1]" by code_simp
  have 3: "weighted_exponent [4, 4, 4] [1, 2, 3] 2 = 0" by code_simp
  have 4: "weighted_exponent [8, 8, 8] [1, 2, 3] 2 = 1" by code_simp
  show ?thesis
    using reduce_invariants_algorithm [of "[4, 4, 4]" "[1, 2, 3]"] reduce_invariants_algorithm [of "[8, 8, 8]" "[1, 2, 3]"] 1 2 3 4
    by simp
qed

subsection \<open>The cubic of a discriminant\<close>

text \<open>
  Claim C6. With a recognised choice of invariants, \<^verbatim>\<open>binary_cubic_from_invariants\<close>
  raises if and only if the discriminant is 0, with the message of the double root, and
  returns \<open>(0, 1, -1, 0)\<close> for every other discriminant.
\<close>

theorem binary_cubic_from_discriminant:
  assumes "invariant_choice \<in> {''default'', ''discriminant''}"
  shows "((\<exists>e. binary_cubic_from_invariants (Scalar d) invariant_choice = Inl e) = (d = 0))
       \<and> (d = 0 \<longrightarrow> binary_cubic_from_invariants (Scalar d) invariant_choice =
             Inl (ValueError ''No unique reconstruction possible for binary cubics with a double root.''))
       \<and> (d \<noteq> 0 \<longrightarrow> binary_cubic_from_invariants (Scalar d) invariant_choice = Inr [0, 1, - 1, 0])"
  using assms by (auto simp: binary_cubic_from_invariants_def equals_zero_def)

theorem binary_cubic_from_discriminant_witness:
  "binary_cubic_from_invariants (Scalar (0::rat)) ''default'' =
     Inl (ValueError ''No unique reconstruction possible for binary cubics with a double root.'')
   \<and> binary_cubic_from_invariants (Scalar (1::rat)) ''default'' = Inr [0, 1, - 1, 0]"
  using binary_cubic_from_discriminant [of "''default''" "0::rat"]
    binary_cubic_from_discriminant [of "''default''" "1::rat"]
  by simp

subsection \<open>The degenerate configurations of a quintic\<close>

text \<open>
  Claim C4. Let the checks of the arguments pass and leave the values \<open>A\<close>, \<open>B\<close>, \<open>C\<close>,
  \<open>M\<close>, \<open>N\<close>, \<open>R\<close> (after the rescaling by \<open>R2\<close>, where it applies). Then
  \<open>M = 0\<close>, \<open>N = 0\<close>, \<open>A = 0\<close> raises the \<^verbatim>\<open>ValueError\<close> of the threefold linear factor
  (which the message spells treefold);
  \<open>M = 0\<close>, \<open>N = 0\<close>, \<open>A \<noteq> 0\<close>, \<open>B = 0\<close> returns \<open>(1,0,0,0,0,1)\<close>;
  \<open>M = 0\<close>, \<open>N = 0\<close>, \<open>A \<noteq> 0\<close>, \<open>B \<noteq> 0\<close> returns \<open>(0,1,0,0,1,0)\<close>;
  \<open>M = 0\<close>, \<open>N \<noteq> 0\<close>, \<open>A = 0\<close> returns \<open>(1,0,0,0,1,0)\<close>;
  \<open>M \<noteq> 0\<close>, \<open>R = 0\<close>, \<open>A = 0\<close> returns \<open>(1,0,10,0,-15,0)\<close>;
  \<open>M \<noteq> 0\<close>, \<open>R \<noteq> 0\<close>, \<open>A = 0\<close>, \<open>B = 0\<close> returns \<open>(1,0,0,1,0,0)\<close>.
\<close>

theorem degenerate_configurations:
  assumes "clebsch_values K invariants invariant_choice scaling = Inr (i2, A, B, C, M, N, R)"
  shows "(M = 0 \<and> N = 0 \<and> A = 0 \<longrightarrow>
            binary_quintic_from_invariants K invariants invariant_choice scaling =
              Inl (ValueError ''No unique reconstruction possible for quintics with a treefold linear factor.''))
       \<and> (M = 0 \<and> N = 0 \<and> A \<noteq> 0 \<and> B = 0 \<longrightarrow>
            binary_quintic_from_invariants K invariants invariant_choice scaling = Inr [1, 0, 0, 0, 0, 1])
       \<and> (M = 0 \<and> N = 0 \<and> A \<noteq> 0 \<and> B \<noteq> 0 \<longrightarrow>
            binary_quintic_from_invariants K invariants invariant_choice scaling = Inr [0, 1, 0, 0, 1, 0])
       \<and> (M = 0 \<and> N \<noteq> 0 \<and> A = 0 \<longrightarrow>
            binary_quintic_from_invariants K invariants invariant_choice scaling = Inr [1, 0, 0, 0, 1, 0])
       \<and> (M \<noteq> 0 \<and> R = 0 \<and> A = 0 \<longrightarrow>
            binary_quintic_from_invariants K invariants invariant_choice scaling = Inr [1, 0, 10, 0, - 15, 0])
       \<and> (M \<noteq> 0 \<and> R \<noteq> 0 \<and> A = 0 \<and> B = 0 \<longrightarrow>
            binary_quintic_from_invariants K invariants invariant_choice scaling = Inr [1, 0, 0, 1, 0, 0])"
  using assms by (simp add: binary_quintic_from_invariants_def quintic_cases_def)

theorem degenerate_configurations_witness:
  "binary_quintic_from_invariants QQ [0, 0, 0] ''clebsch'' ''none'' =
     Inl (ValueError ''No unique reconstruction possible for quintics with a treefold linear factor.'')
   \<and> binary_quintic_from_invariants QQ [1, 0, 0] ''clebsch'' ''none'' = Inr [1, 0, 0, 0, 0, 1]
   \<and> binary_quintic_from_invariants QQ [3, 6, 12] ''clebsch'' ''none'' = Inr [0, 1, 0, 0, 1, 0]
   \<and> binary_quintic_from_invariants QQ [0, 1, 0] ''clebsch'' ''none'' = Inr [1, 0, 0, 0, 1, 0]
   \<and> binary_quintic_from_invariants QQ [0, 3, 3] ''clebsch'' ''none'' = Inr [1, 0, 10, 0, - 15, 0]
   \<and> binary_quintic_from_invariants QQ [0, 0, - 2] ''clebsch'' ''none'' = Inr [1, 0, 0, 1, 0, 0]"
proof -
  have h1: "clebsch_values QQ [0, 0, 0] ''clebsch'' ''none'' = Inr (1 / 2, 0, 0, 0, 0, 0, 0)"
    by code_simp
  have h2: "clebsch_values QQ [1, 0, 0] ''clebsch'' ''none'' = Inr (1 / 2, 1, 0, 0, 0, 0, 0)"
    by code_simp
  have h3: "clebsch_values QQ [3, 6, 12] ''clebsch'' ''none'' = Inr (1 / 2, 3, 6, 12, 0, 0, 0)"
    by code_simp
  have h4: "clebsch_values QQ [0, 1, 0] ''clebsch'' ''none'' = Inr (1 / 2, 0, 1, 0, 0, - 1 / 2, 0)"
    by code_simp
  have h5: "clebsch_values QQ [0, 3, 3] ''clebsch'' ''none'' = Inr (1 / 2, 0, 3, 3, - 9, - 9 / 2, 0)"
    by code_simp
  have h6: "clebsch_values QQ [0, 0, - 2] ''clebsch'' ''none'' = Inr (1 / 2, 0, 0, - 2, 6, 0, 6)"
    by code_simp
  show ?thesis
    using degenerate_configurations [OF h1] degenerate_configurations [OF h2] degenerate_configurations [OF h3] degenerate_configurations [OF h4] degenerate_configurations [OF h5] degenerate_configurations [OF h6]
    by simp
qed

subsection \<open>The syzygy of four invariants\<close>

text \<open>
  Claim C7, as the code has it. Let four invariants \<open>[A, B, C, R]\<close> be given, the
  options be recognised and the characteristic be none of 2, 3, 5; under
  \<^verbatim>\<open>scaling='coprime'\<close> let \<^verbatim>\<open>reduce_invariants\<close> return on them. Then the function
  raises the \<^verbatim>\<open>ValueError\<close> of the syzygy if and only if \<open>R\<^sup>2 \<noteq> R2\<close>, with \<open>R2\<close> of the
  given \<open>A\<close>, \<open>B\<close>, \<open>C\<close>. When \<open>R\<^sup>2 = R2\<close> it goes on with the four values that reach the
  check, the fourth as \<open>R\<close>, and nothing is rescaled by \<open>R2\<close>: these are the given
  values under \<^verbatim>\<open>none\<close> and \<^verbatim>\<open>normalized\<close>, and the reduced ones under \<^verbatim>\<open>coprime\<close>.
\<close>

theorem four_invariants_syzygy:
  assumes "invariant_choice \<in> {''default'', ''clebsch''}"
    and "scaling \<in> {''none'', ''normalized'', ''coprime''}"
    and "has_characteristic K" and "characteristic K \<notin> {2, 3, 5}"
    and "coprime_input K scaling [A, B, C, R] = Inr [A', B', C', R']"
  shows "((binary_quintic_from_invariants K [A, B, C, R] invariant_choice scaling =
             Inl (ValueError ''Provided invariants do not satisfy the syzygy for Clebsch invariants of a binary quintic.''))
           = (R ^ 2 \<noteq> invariant_R2 (inverse 2) A B C))
       \<and> (R ^ 2 = invariant_R2 (inverse 2) A B C \<longrightarrow>
            binary_quintic_from_invariants K [A, B, C, R] invariant_choice scaling =
              quintic_cases K scaling (inverse 2)
                (A', B', C', invariant_M A' B' C', invariant_N (inverse 2) A' B' C', R'))
       \<and> (scaling \<noteq> ''coprime'' \<longrightarrow> [A', B', C', R'] = [A, B, C, R])"
proof -
  let ?v = "(A', B', C', invariant_M A' B' C', invariant_N (inverse 2) A' B' C', R')"
  let ?e = "Inl (ValueError ''Provided invariants do not satisfy the syzygy for Clebsch invariants of a binary quintic.'')"
  have two: "(2::'a) \<noteq> 0" using assms(3,4) by (rule two_nonzero)
  obtain t where t: "t \<noteq> 0" "[A', B', C', R'] = [A * t ^ 2, B * t ^ 4, C * t ^ 6, R * t ^ 9]"
    "scaling \<noteq> ''coprime'' \<longrightarrow> t = 1"
    using coprime_input_four [OF assms(5)] by blast
  have sy: "(R' ^ 2 = invariant_R2 (inverse 2) A' B' C') = (R ^ 2 = invariant_R2 (inverse 2) A B C)"
    using t(2) syzygy_scaled [OF t(1), of R "inverse 2" A B C] by simp
  have eq: "binary_quintic_from_invariants K [A, B, C, R] invariant_choice scaling =
      (if R' ^ 2 \<noteq> invariant_R2 (inverse 2) A' B' C' then ?e
       else quintic_cases K scaling (inverse 2) ?v)"
    using assms(1,2,4,5) two
    by (simp add: binary_quintic_from_invariants_def clebsch_values_def syzygy_root_def
                  inv_K_def Let_def)
  have ne: "quintic_cases K scaling (inverse 2) ?v \<noteq> ?e"
    using quintic_cases_error [of K scaling "inverse 2" ?v] by auto
  have same: "scaling \<noteq> ''coprime'' \<longrightarrow> [A', B', C', R'] = [A, B, C, R]"
    using t(2,3) by auto
  show ?thesis using eq ne sy same by auto
qed

theorem four_invariants_syzygy_witness:
  "binary_quintic_from_invariants QQ [- 3, - 1, 3, 2] ''clebsch'' ''none'' =
     Inl (ValueError ''Provided invariants do not satisfy the syzygy for Clebsch invariants of a binary quintic.'')
   \<and> binary_quintic_from_invariants QQ [- 1 / 2, 1 / 2, - 1 / 2, 1 / 2] ''clebsch'' ''coprime'' =
       quintic_cases QQ ''coprime'' (1 / 2) (- 2, 8, - 32, 64, 0, 256)"
proof -
  have c: "characteristic QQ \<notin> {2, 3, 5}" by (simp add: QQ_def)
  have h1: "coprime_input QQ ''none'' [- 3, - 1, 3, 2] = Inr [- 3, - 1, 3, 2]"
    by (simp add: coprime_input_def)
  have h2: "coprime_input QQ ''coprime'' [- 1 / 2, 1 / 2, - 1 / 2, 1 / 2] = Inr [- 2, 8, - 32, 256]"
    by code_simp
  have r: "invariant_R2 (1 / 2) (- 3) (- 1) (3::rat) = 9"
    "invariant_R2 (1 / 2) (- (1 / 2)) (1 / 2) (- (1 / 2) :: rat) = 1 / 4"
    "invariant_M (- 2) 8 (- 32 :: rat) = 64" "invariant_N (1 / 2) (- 2) 8 (- 32 :: rat) = 0"
    by (simp_all add: invariant_R2_def invariant_M_def invariant_N_def Let_def power2_eq_square)
  show ?thesis
    using four_invariants_syzygy [OF _ _ QQ_has_characteristic c h1, of "''clebsch''"]
      four_invariants_syzygy [OF _ _ QQ_has_characteristic c h2, of "''clebsch''"]
    by (simp add: r power2_eq_square)
qed

text \<open>
  Under \<^verbatim>\<open>coprime\<close> the invariants are reduced before the check. A zero among them has
  no factorisation: \<open>[0, 0, 0, 1]\<close> violates the syzygy, and the error is that of the
  factorisation. And the values that satisfy the syzygy go on reduced:
  \<open>[-1/2, 1/2, -1/2, 1/2]\<close> reduces to \<open>[-2, 8, -32, 256]\<close>, and the coefficients returned
  are not those that the given values, with \<open>1/2\<close> as \<open>R\<close>, lead to.
\<close>

theorem coprime_reduces_before_syzygy_check:
  "binary_quintic_from_invariants QQ [0, 0, 0, 1] ''clebsch'' ''coprime'' = Inl ArithmeticError
   \<and> (1::rat) ^ 2 \<noteq> invariant_R2 (inverse 2) 0 0 0
   \<and> (1 / 2 :: rat) ^ 2 = invariant_R2 (inverse 2) (- 1 / 2) (1 / 2) (- 1 / 2)
   \<and> binary_quintic_from_invariants QQ [- 1 / 2, 1 / 2, - 1 / 2, 1 / 2] ''clebsch'' ''coprime''
       = Inr [- 1, 5, 110, 130, 115, 217]
   \<and> quintic_cases QQ ''coprime'' (inverse 2)
        (- 1 / 2, 1 / 2, - 1 / 2, invariant_M (- 1 / 2) (1 / 2) (- 1 / 2),
         invariant_N (inverse 2) (- 1 / 2) (1 / 2) (- 1 / 2), 1 / 2)
       = Inr [- 32, 80, 880, 520, 230, 217]"
  by code_simp

subsection \<open>No division by zero in the normalised scaling\<close>



subsection \<open>Coprime coefficients\<close>

text \<open>
  Claim C10. Over the rationals, every tuple that the function returns under
  \<^verbatim>\<open>scaling='coprime'\<close> has the gcd 1: the five tuples of the special cases hold a
  coefficient 1, and the general path divides the six coefficients by their gcd, which
  is not 0 when the division returns.
\<close>

theorem coprime_coefficients_unit_gcd:
  assumes "binary_quintic_from_invariants QQ invariants invariant_choice ''coprime'' = Inr coeffs"
  shows "gcd_QQ coeffs = 1"
  using assms unfolding binary_quintic_from_invariants_def
  by (auto dest!: and_then_Inr dest: quintic_cases_coprime)

theorem coprime_coefficients_unit_gcd_witness:
  "binary_quintic_from_invariants QQ [3, 4, 7] ''clebsch'' ''coprime'' =
     Inr [- 2048, 3840, 0, 876960, 2724840, - 613089]
   \<and> gcd_QQ [- 2048, 3840, 0, 876960, 2724840, - 613089] = 1"
proof -
  have h: "binary_quintic_from_invariants QQ [3, 4, 7] ''clebsch'' ''coprime'' =
      Inr [- 2048, 3840, 0, 876960, 2724840, - 613089]"
    by code_simp
  show ?thesis using h coprime_coefficients_unit_gcd [OF h] by simp
qed

subsection \<open>The reduction is idempotent\<close>

text \<open>
  Claim C9. Over the rationals, on a nonempty list of invariants other than 0 with as
  many positive weights, \<^verbatim>\<open>reduce_invariants\<close> returns a list that it returns unchanged
  when applied to it again with the same weights. So under \<^verbatim>\<open>scaling='coprime'\<close>, with
  the weights \<open>[1, 2, 3]\<close> or \<open>[2, 4, 6, 9]\<close> of the quintic, the reduction of the reduced
  invariants is a no-op, and the function computes from the reduced invariants what it
  computes from the given ones.
\<close>

theorem reduce_invariants_idempotent:
  assumes "invariants \<noteq> []" "length weights = length invariants"
    and "\<forall>x \<in> set invariants. x \<noteq> 0" "\<forall>w \<in> set weights. 0 < w"
  shows "\<exists>reduced.
           reduce_invariants QQ invariants weights = Inr reduced
         \<and> reduce_invariants QQ reduced weights = Inr reduced
         \<and> (weights = [1, 2, 3] \<or> weights = [2, 4, 6, 9] \<longrightarrow>
              coprime_input QQ ''coprime'' reduced = Inr reduced
            \<and> binary_quintic_from_invariants QQ reduced invariant_choice ''coprime'' =
                binary_quintic_from_invariants QQ invariants invariant_choice ''coprime'')"
proof -
  let ?ys = "reduce_invariants_spec invariants weights"
  have 1: "reduce_invariants QQ invariants weights = Inr ?ys"
    using assms by (rule reduce_invariants_QQ)
  have 2: "reduce_invariants QQ ?ys weights = Inr ?ys"
    using assms by (rule reduce_invariants_QQ_idempotent)
  have l: "length ?ys = length invariants"
    using assms(2) by (simp add: length_reduce_invariants_spec)
  have 3: "coprime_input QQ ''coprime'' ?ys = Inr ?ys
         \<and> binary_quintic_from_invariants QQ ?ys invariant_choice ''coprime'' =
             binary_quintic_from_invariants QQ invariants invariant_choice ''coprime''"
    if w: "weights = [1, 2, 3] \<or> weights = [2, 4, 6, 9]"
  proof -
    have a: "coprime_input QQ ''coprime'' invariants = Inr ?ys"
      using w 1 assms(2) by (auto simp: coprime_input_def)
    have b: "coprime_input QQ ''coprime'' ?ys = Inr ?ys"
      using w 2 l assms(2) by (auto simp: coprime_input_def)
    show ?thesis
      using b by (simp add: binary_quintic_from_invariants_def clebsch_values_def a)
  qed
  show ?thesis using 1 2 3 by blast
qed

theorem reduce_invariants_idempotent_witness:
  "reduce_invariants QQ [6 / 5, 12, 16] [1, 2, 3] = Inr [3, 75, 250]
   \<and> reduce_invariants QQ [3, 75, 250] [1, 2, 3] = Inr [3, 75, 250]
   \<and> coprime_input QQ ''coprime'' [3, 75, 250] = Inr [3, 75, 250]
   \<and> binary_quintic_from_invariants QQ [3, 75, 250] ''clebsch'' ''coprime'' =
       binary_quintic_from_invariants QQ [6 / 5, 12, 16] ''clebsch'' ''coprime''"
proof -
  have e: "reduce_invariants QQ [6 / 5, 12, 16] [1, 2, 3] = Inr [3, 75, 250]" by code_simp
  show ?thesis
    using reduce_invariants_idempotent [of "[6 / 5, 12, 16]" "[1, 2, 3]" "''clebsch''"] e by auto
qed

end
